theory Spec2Isabelle
  imports Complex_Main
begin

section \<open>Strings of the Go standard library\<close>

text \<open>
  A Go string is a sequence of bytes, here a \<open>string\<close> (a list of 8-bit characters).
  The program (src/back_go/csv/processor.go) uses two functions of package strings:
  ReplaceAll and ToLower.
\<close>

definition isASCII :: "string \<Rightarrow> bool" where
  "isASCII s = list_all (\<lambda>c. (of_char c :: nat) < 128) s"

definition isUpperByte :: "char \<Rightarrow> bool" where
  "isUpperByte c = (65 \<le> (of_char c :: nat) \<and> (of_char c :: nat) \<le> 90)"

definition lowerByte :: "char \<Rightarrow> char" where
  "lowerByte c = (if isUpperByte c then char_of ((of_char c :: nat) + 32) else c)"

definition hasUpper :: "string \<Rightarrow> bool" where
  "hasUpper s = list_ex isUpperByte s"

text \<open>
  strings.ToLower: a string of ASCII bytes only is lowered byte by byte (\<open>c += 'a' - 'A'\<close>
  for \<open>'A' <= c <= 'Z'\<close>), and returned as it is when it has no upper-case byte. Any
  other string goes through \<open>Map(unicode.ToLower, s)\<close>, which decodes UTF-8 and reads
  the Unicode case tables; those tables are not part of this repository, so that
  function is the parameter \<open>mapLower\<close>.
\<close>

definition ToLower :: "(string \<Rightarrow> string) \<Rightarrow> string \<Rightarrow> string" where
  "ToLower mapLower s =
     (if isASCII s then (if hasUpper s then map lowerByte s else s) else mapLower s)"

text \<open>
  strings.ReplaceAll(s, old, new): the non-overlapping occurrences of \<open>old\<close>, found from
  the left, are replaced by \<open>new\<close>. The program calls it with the one-byte patterns
  \<open>" "\<close> and \<open>"-"\<close> only; the empty pattern (where Go inserts \<open>new\<close> at every rune
  boundary) is outside this model, which leaves the string unchanged there.
\<close>

function ReplaceAll :: "string \<Rightarrow> string \<Rightarrow> string \<Rightarrow> string" where
  "ReplaceAll [] old new = []"
| "ReplaceAll (c # cs) old new =
     (if old \<noteq> [] \<and> take (length old) (c # cs) = old
      then new @ ReplaceAll (drop (length old) (c # cs)) old new
      else c # ReplaceAll cs old new)"
  by pat_completeness auto
termination
  by (relation "measure (\<lambda>(s, old, new). length s)") auto

text \<open>
  Lines 48-50 of ProcessCSVOptimized, the body of the loop over the header fields:
  \<^verbatim>\<open>
  cleanHeader := strings.ReplaceAll(header, " ", "_")
  cleanHeader = strings.ReplaceAll(cleanHeader, "-", "_")
  cleanHeader = strings.ToLower(cleanHeader)
  \<close>
\<close>

definition normalize :: "(string \<Rightarrow> string) \<Rightarrow> string \<Rightarrow> string" where
  "normalize mapLower header =
     ToLower mapLower (ReplaceAll (ReplaceAll header '' '' ''_'') ''-'' ''_'')"

text \<open>strings.Join(elems, sep).\<close>

fun Join :: "string list \<Rightarrow> string \<Rightarrow> string" where
  "Join [] sep = []"
| "Join [x] sep = x"
| "Join (x # y # ys) sep = x @ sep @ Join (y # ys) sep"

section \<open>The destination: a relational store behind database/sql\<close>

text \<open>
  The program talks to the destination through database/sql and the driver lib/pq,
  neither of which belongs to the repository. The destination is therefore an explicit
  state (\<open>world\<close>) together with a parameter that decides which operations it
  rejects (\<open>faults\<close>): given the operations issued so far with their outcomes and the
  next operation, it answers \<open>None\<close> (accepted) or \<open>Some msg\<close> (rejected, with the
  message of the Go error).
\<close>

type_synonym row = "string list"

record relation =
  columns :: "string list"
  rows :: "row list"

text \<open>
  The SQL statements the program builds with fmt.Sprintf, kept structured;
  \<open>sql_text\<close> is the text handed to db.Exec.
\<close>

datatype statement =
    RawSQL string
  | DropTableIfExists string
  | CreateUnloggedTable string "string list"

fun sql_text :: "statement \<Rightarrow> string" where
  "sql_text (RawSQL s) = s"
| "sql_text (DropTableIfExists tableName) = ''DROP TABLE IF EXISTS '' @ tableName"
| "sql_text (CreateUnloggedTable tableName cols) =
     ''CREATE UNLOGGED TABLE '' @ tableName @ '' ('' @ Join cols '', '' @ '')''"

text \<open>
  The operations that reach the destination: db.Exec, db.Begin, tx.Prepare of
  pq.CopyIn(table, columns...), stmt.Exec(args...) (with no argument it finalizes the
  COPY), stmt.Close, tx.Commit and tx.Rollback.
\<close>

datatype op =
    Exec statement
  | Begin
  | Prepare string "string list"
  | StmtExec "string list"
  | StmtClose
  | Commit
  | Rollback

type_synonym entry = "op \<times> string option"

type_synonym faults = "entry list \<Rightarrow> op \<Rightarrow> string option"

text \<open>The lines the program prints; the emoji and number formatting are left out.\<close>

datatype out_line =
    OutCSV string
  | OutColumns "string list"
  | OutOptimized
  | OutCreating string
  | OutStarting
  | OutProgress nat
  | OutSummary nat real "real option"

record world =
  relations :: "string \<Rightarrow> relation option"
  txOpen :: bool
  copyTarget :: "string option"
  staged :: "row list"
  oplog :: "entry list"
  stdout :: "out_line list"

definition Println :: "out_line \<Rightarrow> world \<Rightarrow> world" where
  "Println l w = w\<lparr>stdout := stdout w @ [l]\<rparr>"

text \<open>Issuing an operation: the destination decides, and the log records it.\<close>

definition issue :: "faults \<Rightarrow> op \<Rightarrow> world \<Rightarrow> string option \<times> world" where
  "issue F opn w = (F (oplog w) opn, w\<lparr>oplog := oplog w @ [(opn, F (oplog w) opn)]\<rparr>)"

fun apply_statement :: "statement \<Rightarrow> world \<Rightarrow> world" where
  "apply_statement (RawSQL s) w = w"
| "apply_statement (DropTableIfExists tableName) w =
     w\<lparr>relations := (relations w)(tableName := None)\<rparr>"
| "apply_statement (CreateUnloggedTable tableName cols) w =
     w\<lparr>relations := (relations w)(tableName \<mapsto> \<lparr>columns = cols, rows = []\<rparr>)\<rparr>"

text \<open>db.Exec runs outside any transaction: an accepted statement takes effect at once.\<close>

definition db_Exec :: "faults \<Rightarrow> statement \<Rightarrow> world \<Rightarrow> string option \<times> world" where
  "db_Exec F st w =
     (case issue F (Exec st) w of
        (Some e, w') \<Rightarrow> (Some e, w')
      | (None, w') \<Rightarrow> (None, apply_statement st w'))"

text \<open>
  The atomic unit of work. Rows submitted through the COPY statement are staged; an
  accepted commit appends them to the target relation, and a rejected commit or a
  rollback discards them. After tx.Commit, accepted or not, database/sql marks the
  transaction done, and a later tx.Rollback returns ErrTxDone without reaching the
  destination.
\<close>

definition db_Begin :: "faults \<Rightarrow> world \<Rightarrow> string option \<times> world" where
  "db_Begin F w =
     (case issue F Begin w of
        (Some e, w') \<Rightarrow> (Some e, w')
      | (None, w') \<Rightarrow> (None, w'\<lparr>txOpen := True, copyTarget := None, staged := []\<rparr>))"

definition tx_Prepare :: "faults \<Rightarrow> string \<Rightarrow> string list \<Rightarrow> world \<Rightarrow> string option \<times> world" where
  "tx_Prepare F tableName cols w =
     (case issue F (Prepare tableName cols) w of
        (Some e, w') \<Rightarrow> (Some e, w')
      | (None, w') \<Rightarrow> (None, w'\<lparr>copyTarget := Some tableName\<rparr>))"

definition stmt_Exec :: "faults \<Rightarrow> string list \<Rightarrow> world \<Rightarrow> string option \<times> world" where
  "stmt_Exec F args w =
     (case issue F (StmtExec args) w of
        (Some e, w') \<Rightarrow> (Some e, w')
      | (None, w') \<Rightarrow> (None, if args = [] then w' else w'\<lparr>staged := staged w' @ [args]\<rparr>))"

definition stmt_Close :: "faults \<Rightarrow> world \<Rightarrow> string option \<times> world" where
  "stmt_Close F w = issue F StmtClose w"

definition commit_rows :: "world \<Rightarrow> string \<Rightarrow> relation option" where
  "commit_rows w =
     (case copyTarget w of
        None \<Rightarrow> relations w
      | Some t \<Rightarrow>
          (case relations w t of
             None \<Rightarrow> relations w
           | Some r \<Rightarrow> (relations w)(t \<mapsto> r\<lparr>rows := rows r @ staged w\<rparr>)))"

definition tx_Commit :: "faults \<Rightarrow> world \<Rightarrow> string option \<times> world" where
  "tx_Commit F w =
     (case issue F Commit w of
        (Some e, w') \<Rightarrow> (Some e, w'\<lparr>txOpen := False, staged := []\<rparr>)
      | (None, w') \<Rightarrow>
          (None, w'\<lparr>relations := commit_rows w', txOpen := False, staged := []\<rparr>))"

text \<open>tx.Rollback, as the deferred call uses it: its error is dropped.\<close>

definition tx_Rollback :: "faults \<Rightarrow> world \<Rightarrow> world" where
  "tx_Rollback F w =
     (if txOpen w
      then (snd (issue F Rollback w))\<lparr>txOpen := False, staged := []\<rparr>
      else w)"

section \<open>The record source: encoding/csv\<close>

text \<open>
  What the successive calls of reader.Read() return: a record, or an error, of which
  the program reads the message only. Past the end of the file Read returns io.EOF,
  whose message is \<open>"EOF"\<close>.
\<close>

datatype read_result = Record "string list" | ReadErr string

fun Read :: "read_result list \<Rightarrow> read_result \<times> read_result list" where
  "Read [] = (ReadErr ''EOF'', [])"
| "Read (r # rs) = (r, rs)"

section \<open>The program\<close>

text \<open>
  The errors the program returns, one constructor per fmt.Errorf of the source, with
  the arguments of the format:
  \<^verbatim>\<open>
  OpenError p e      "impossible to open %s: %v"
  HeaderError e      "error reading header: %v"
  DropError e        "error dropping table: %v"
  CreateError e      "error creating table: %v"
  BeginError e       "error starting transaction: %v"
  PrepareError e     "error preparing COPY: %v"
  ReadLineError k e  "error reading line %d: %v"
  CopyLineError k e  "error copying line %d: %v"
  FinalizeError e    "error finalizing COPY: %v"
  CloseError e       "error closing COPY: %v"
  CommitError e      "error committing transaction: %v"
  \<close>
\<close>

datatype error =
    OpenError string string
  | HeaderError string
  | DropError string
  | CreateError string
  | BeginError string
  | PrepareError string
  | ReadLineError nat string
  | CopyLineError nat string
  | FinalizeError string
  | CloseError string
  | CommitError string

subsection \<open>optimizeForBulkInsert\<close>

definition optimizations :: "string list" where
  "optimizations =
     [''SET synchronous_commit = OFF'',
      ''SET wal_buffers = '128MB'' @ [CHR 0x27],
      ''SET checkpoint_segments = 64'',
      ''SET checkpoint_completion_target = 0.9'',
      ''SET maintenance_work_mem = '1GB'' @ [CHR 0x27],
      ''SET work_mem = '512MB'' @ [CHR 0x27],
      ''SET shared_buffers = '512MB'' @ [CHR 0x27],
      ''SET effective_cache_size = '2GB'' @ [CHR 0x27],
      ''SET fsync = OFF'']"

text \<open>
  The loop of lines 155-159: each statement is executed, and the loop goes on to the
  next one whether db.Exec returned an error or not.
\<close>

fun optimize_loop :: "faults \<Rightarrow> string list \<Rightarrow> world \<Rightarrow> world" where
  "optimize_loop F [] w = w"
| "optimize_loop F (sql # sqls) w =
     (case db_Exec F (RawSQL sql) w of
        (Some e, w') \<Rightarrow> optimize_loop F sqls w'
      | (None, w') \<Rightarrow> optimize_loop F sqls w')"

definition optimizeForBulkInsert :: "faults \<Rightarrow> world \<Rightarrow> error option \<times> world" where
  "optimizeForBulkInsert F w =
     (None, Println OutOptimized (optimize_loop F optimizations w))"

subsection \<open>copyInsert\<close>

text \<open>
  The loop of lines 96-123. \<open>lineCount\<close> is a Go int; it counts records of one file
  and is modelled as a natural number. The conversion of the record to a slice of
  interface values (lines 106-109) keeps the fields as they are. The rate printed with
  the progress line is a floating-point quotient of the wall clock and is left out.
\<close>

function copy_loop :: "faults \<Rightarrow> read_result list \<Rightarrow> nat \<Rightarrow> world \<Rightarrow> (error + nat) \<times> world" where
  "copy_loop F reader lineCount w =
     (case Read reader of
        (ReadErr msg, reader') \<Rightarrow>
          if msg = ''EOF'' then (Inr lineCount, w)
          else (Inl (ReadLineError (lineCount + 1) msg), w)
      | (Record record, reader') \<Rightarrow>
          (case stmt_Exec F record w of
             (Some e, w') \<Rightarrow> (Inl (CopyLineError (lineCount + 1) e), w')
           | (None, w') \<Rightarrow>
               copy_loop F reader' (lineCount + 1)
                 (if (lineCount + 1) mod 100000 = 0
                  then Println (OutProgress (lineCount + 1)) w'
                  else w')))"
  by pat_completeness auto
termination
proof (relation "measure (\<lambda>(F, reader, lineCount, w). length reader)", goal_cases)
  case 1
  show ?case by simp
next
  case (2 F reader lineCount w res reader' fields outcome w')
  then have "length reader' < length reader"
    by (cases reader) auto
  then show ?case by simp
qed

text \<open>
  The part of copyInsert that runs under the deferred tx.Rollback (lines 84-139). On
  an error the source returns the count 0 with the error: \<open>Inl e\<close> stands for
  \<open>(0, e)\<close>, \<open>Inr n\<close> for \<open>(n, nil)\<close>.
\<close>

definition copyInsert_tx ::
  "faults \<Rightarrow> read_result list \<Rightarrow> string \<Rightarrow> string list \<Rightarrow> world \<Rightarrow> (error + nat) \<times> world" where
  "copyInsert_tx F reader tableName headers w =
     (case tx_Prepare F tableName headers w of
        (Some e, w1) \<Rightarrow> (Inl (PrepareError e), w1)
      | (None, w1) \<Rightarrow>
          (case copy_loop F reader 0 (Println OutStarting w1) of
             (Inl e, w2) \<Rightarrow> (Inl e, w2)
           | (Inr lineCount, w2) \<Rightarrow>
               (case stmt_Exec F [] w2 of
                  (Some e, w3) \<Rightarrow> (Inl (FinalizeError e), w3)
                | (None, w3) \<Rightarrow>
                    (case stmt_Close F w3 of
                       (Some e, w4) \<Rightarrow> (Inl (CloseError e), w4)
                     | (None, w4) \<Rightarrow>
                         (case tx_Commit F w4 of
                            (Some e, w5) \<Rightarrow> (Inl (CommitError e), w5)
                          | (None, w5) \<Rightarrow> (Inr lineCount, w5))))))"

definition copyInsert ::
  "faults \<Rightarrow> read_result list \<Rightarrow> string \<Rightarrow> string list \<Rightarrow> world \<Rightarrow> (error + nat) \<times> world" where
  "copyInsert F reader tableName headers w =
     (case db_Begin F w of
        (Some e, w1) \<Rightarrow> (Inl (BeginError e), w1)
      | (None, w1) \<Rightarrow>
          (case copyInsert_tx F reader tableName headers w1 of
             (r, w2) \<Rightarrow> (r, tx_Rollback F w2)))"

subsection \<open>ProcessCSVOptimized and ProcessCSV\<close>

text \<open>
  The loop of lines 45-53 over the header fields: \<open>cleanHeaders[i]\<close> is the normalized
  field and \<open>columns\<close> gets the column definition \<open>cleanHeader + " TEXT"\<close> appended.
  The pair is (cleanHeaders, columns).
\<close>

fun derive_schema :: "(string \<Rightarrow> string) \<Rightarrow> string list \<Rightarrow> string list \<times> string list" where
  "derive_schema mapLower [] = ([], [])"
| "derive_schema mapLower (header # headers) =
     (case derive_schema mapLower headers of
        (cleanHeaders, cols) \<Rightarrow>
          (normalize mapLower header # cleanHeaders,
           (normalize mapLower header @ '' TEXT'') # cols))"

text \<open>
  \<open>float64(lineCount) / elapsed.Seconds()\<close> in exact arithmetic. A zero divisor, where
  Go yields an infinity or a NaN, is \<open>None\<close>.
\<close>

definition linesPerSec :: "nat \<Rightarrow> real \<Rightarrow> real option" where
  "linesPerSec lineCount secs = (if secs = 0 then None else Some (real lineCount / secs))"

text \<open>
  What the program gets from outside: the destination's rejections, the file system
  (os.Open gives an error message or the file, read through csv.NewReader), the seconds
  that time.Since(start) measures at line 68, and the Unicode lowering of strings.ToLower.
\<close>

record env =
  faults :: faults
  files :: "string \<Rightarrow> string + read_result list"
  seconds :: real
  mapLower :: "string \<Rightarrow> string"

text \<open>
  ProcessCSVOptimized returns an error value only: \<open>None\<close> is nil. The printed file
  name is filepath.Base(csvPath); the model keeps the path.
\<close>

definition ProcessCSVOptimized :: "env \<Rightarrow> string \<Rightarrow> string \<Rightarrow> world \<Rightarrow> error option \<times> world" where
  "ProcessCSVOptimized E csvPath tableName w =
     (case files E csvPath of
        Inl e \<Rightarrow> (Some (OpenError csvPath e), w)
      | Inr file \<Rightarrow>
          (case Read file of
             (ReadErr e, reader) \<Rightarrow> (Some (HeaderError e), w)
           | (Record headers, reader) \<Rightarrow>
               (case optimizeForBulkInsert (faults E)
                       (Println (OutColumns headers) (Println (OutCSV csvPath) w)) of
                  (ignored, w1) \<Rightarrow>
                    (case db_Exec (faults E) (DropTableIfExists tableName) w1 of
                       (Some e, w2) \<Rightarrow> (Some (DropError e), w2)
                     | (None, w2) \<Rightarrow>
                         (case derive_schema (mapLower E) headers of
                            (cleanHeaders, cols) \<Rightarrow>
                              (case db_Exec (faults E) (CreateUnloggedTable tableName cols)
                                      (Println (OutCreating tableName) w2) of
                                 (Some e, w3) \<Rightarrow> (Some (CreateError e), w3)
                               | (None, w3) \<Rightarrow>
                                   (case copyInsert (faults E) reader tableName cleanHeaders w3 of
                                      (Inl e, w4) \<Rightarrow> (Some e, w4)
                                    | (Inr lineCount, w4) \<Rightarrow>
                                        (None,
                                         Println
                                           (OutSummary lineCount (seconds E)
                                              (linesPerSec lineCount (seconds E)))
                                           w4))))))))"

text \<open>Lines 165-168: the old entry point, kept for compatibility.\<close>

definition ProcessCSV :: "env \<Rightarrow> string \<Rightarrow> string \<Rightarrow> world \<Rightarrow> error option \<times> world" where
  "ProcessCSV E csvPath tableName w = ProcessCSVOptimized E csvPath tableName w"

section \<open>Notions used to state the properties\<close>

text \<open>
  The records that the loop of copyInsert reads before it stops, and the message of the
  error at which it stops: the first error that Read returns, io.EOF at the end of
  the file.
\<close>

fun leading :: "read_result list \<Rightarrow> row list" where
  "leading [] = []"
| "leading (ReadErr msg # rest) = []"
| "leading (Record r # rest) = r # leading rest"

fun stop_msg :: "read_result list \<Rightarrow> string" where
  "stop_msg [] = ''EOF''"
| "stop_msg (ReadErr msg # rest) = msg"
| "stop_msg (Record r # rest) = stop_msg rest"

text \<open>
  \<open>accepts F h ops\<close>: from the history \<open>h\<close> on, the destination accepts the operations
  \<open>ops\<close> one after the other. \<open>accepted ops\<close> are their log entries. \<open>issued F h ops\<close>
  are the log entries of \<open>ops\<close> issued in turn from \<open>h\<close> on, whatever their outcomes.
\<close>

fun accepts :: "faults \<Rightarrow> entry list \<Rightarrow> op list \<Rightarrow> bool" where
  "accepts F h [] = True"
| "accepts F h (opn # ops) = (F h opn = None \<and> accepts F (h @ [(opn, None)]) ops)"

definition accepted :: "op list \<Rightarrow> entry list" where
  "accepted ops = map (\<lambda>opn. (opn, None)) ops"

fun issued :: "faults \<Rightarrow> entry list \<Rightarrow> op list \<Rightarrow> entry list" where
  "issued F h [] = []"
| "issued F h (opn # ops) = (opn, F h opn) # issued F (h @ [(opn, F h opn)]) ops"

fun is_Exec :: "op \<Rightarrow> bool" where
  "is_Exec (Exec st) = True"
| "is_Exec opn = False"

text \<open>The operations of the tuning step, and the entries a whole invocation adds to the log.\<close>

definition tuning_ops :: "op list" where
  "tuning_ops = map (\<lambda>sql. Exec (RawSQL sql)) optimizations"

definition new_entries :: "world \<Rightarrow> world \<Rightarrow> entry list" where
  "new_entries w w' = drop (length (oplog w)) (oplog w')"

text \<open>
  Worlds along a run: after an accepted db.Begin; after an accepted tx.Prepare that
  follows it (with the line printed at line 93); after the tuning step of
  ProcessCSVOptimized; after its DROP; after its CREATE.
\<close>

definition begun :: "world \<Rightarrow> world" where
  "begun w = w\<lparr>oplog := oplog w @ [(Begin, None)], txOpen := True, copyTarget := None,
               staged := []\<rparr>"

definition prepared :: "string \<Rightarrow> string list \<Rightarrow> world \<Rightarrow> world" where
  "prepared t hs w = Println OutStarting
     ((begun w)\<lparr>oplog := oplog w @ [(Begin, None), (Prepare t hs, None)], copyTarget := Some t\<rparr>)"

definition tuned :: "env \<Rightarrow> string \<Rightarrow> string list \<Rightarrow> world \<Rightarrow> world" where
  "tuned E csvPath headers w =
     snd (optimizeForBulkInsert (faults E)
            (Println (OutColumns headers) (Println (OutCSV csvPath) w)))"

definition dropped :: "env \<Rightarrow> string \<Rightarrow> string \<Rightarrow> string list \<Rightarrow> world \<Rightarrow> world" where
  "dropped E csvPath tableName headers w =
     snd (db_Exec (faults E) (DropTableIfExists tableName) (tuned E csvPath headers w))"

definition created :: "env \<Rightarrow> string \<Rightarrow> string \<Rightarrow> string list \<Rightarrow> world \<Rightarrow> world" where
  "created E csvPath tableName headers w =
     snd (db_Exec (faults E)
            (CreateUnloggedTable tableName (snd (derive_schema (mapLower E) headers)))
            (Println (OutCreating tableName) (dropped E csvPath tableName headers w)))"

section \<open>Example inputs\<close>

text \<open>
  The file \<open>people.csv\<close> with the header \<open>Name,Age\<close> and the records of the
  spec's end-to-end scenario, an empty destination, a destination that has the relation
  \<open>people\<close>, and a destination that rejects one given operation.
\<close>

definition people_world :: world where
  "people_world =
     \<lparr>relations = [''people'' \<mapsto> \<lparr>columns = [''name TEXT'', ''age TEXT''], rows = []\<rparr>],
      txOpen = False, copyTarget = None, staged = [], oplog = [], stdout = []\<rparr>"

definition people_rows :: "read_result list" where
  "people_rows = [Record [''Ada'', ''36''], Record [''Alan'', ''41'']]"

definition reject_op :: "op \<Rightarrow> faults" where
  "reject_op x = (\<lambda>h opn. if opn = x then Some ''rejected'' else None)"

definition empty_world :: world where
  "empty_world =
     \<lparr>relations = Map.empty, txOpen = False, copyTarget = None, staged = [], oplog = [],
      stdout = []\<rparr>"

definition people_env :: "faults \<Rightarrow> read_result list \<Rightarrow> env" where
  "people_env F data =
     \<lparr>faults = F,
      files = (\<lambda>p. if p = ''people.csv'' then Inr (Record [''Name'', ''Age''] # data)
                    else Inl ''no such file''),
      seconds = 2,
      mapLower = map lowerByte\<rparr>"

definition accept_all :: faults where
  "accept_all = (\<lambda>h opn. None)"

section \<open>Header normalization\<close>

text \<open>With a one-byte pattern and a one-byte replacement, ReplaceAll maps over the bytes.\<close>

lemma ReplaceAll_byte:
  "ReplaceAll s [a] [b] = map (\<lambda>c. if c = a then b else c) s"
  by (induction s) auto

lemma ReplaceAll_twice:
  "ReplaceAll (ReplaceAll s '' '' ''_'') ''-'' ''_'' =
     map (\<lambda>c. if c = CHR '' '' \<or> c = CHR ''-'' then CHR ''_'' else c) s"
  by (simp add: ReplaceAll_byte)

lemma of_char_lowerByte:
  "(of_char (lowerByte c) :: nat) = (if isUpperByte c then of_char c + 32 else of_char c)"
proof (cases "isUpperByte c")
  case True
  then have "(of_char c :: nat) + 32 < 256" by (simp add: isUpperByte_def)
  with True show ?thesis by (simp add: lowerByte_def)
next
  case False
  then show ?thesis by (simp add: lowerByte_def)
qed

lemma not_upper_lowerByte: "\<not> isUpperByte (lowerByte c)"
  by (simp add: isUpperByte_def of_char_lowerByte)

lemma lowerByte_ascii: "(of_char (lowerByte c) :: nat) < 128 \<longleftrightarrow> (of_char c :: nat) < 128"
  by (auto simp: of_char_lowerByte isUpperByte_def)

lemma lowerByte_eq_char:
  assumes "\<not> isUpperByte d" "(of_char d :: nat) < 65 \<or> 122 < (of_char d :: nat)"
  shows "lowerByte c = d \<longleftrightarrow> c = d"
proof -
  have "lowerByte c = d \<longleftrightarrow> (of_char (lowerByte c) :: nat) = of_char d"
    by (simp only: of_char_eq_iff)
  also have "\<dots> \<longleftrightarrow> (of_char c :: nat) = of_char d"
    using assms by (auto simp: of_char_lowerByte isUpperByte_def)
  also have "\<dots> \<longleftrightarrow> c = d"
    by (simp only: of_char_eq_iff)
  finally show ?thesis .
qed

lemma lowerByte_space:
  "lowerByte c = CHR '' '' \<longleftrightarrow> c = CHR '' ''"
  "CHR '' '' = lowerByte c \<longleftrightarrow> CHR '' '' = c"
  using lowerByte_eq_char [of "CHR '' ''" c] by (auto simp: isUpperByte_def)

lemma lowerByte_hyphen:
  "lowerByte c = CHR ''-'' \<longleftrightarrow> c = CHR ''-''"
  "CHR ''-'' = lowerByte c \<longleftrightarrow> CHR ''-'' = c"
  using lowerByte_eq_char [of "CHR ''-''" c] by (auto simp: isUpperByte_def)

lemma isASCII_map_lowerByte: "isASCII (map lowerByte s) = isASCII s"
  by (induction s) (simp_all add: isASCII_def lowerByte_ascii)

lemma hasUpper_map_lowerByte: "\<not> hasUpper (map lowerByte s)"
  by (induction s) (simp_all add: hasUpper_def not_upper_lowerByte)

lemma ToLower_ascii_idem:
  "isASCII s \<Longrightarrow> ToLower U (ToLower U s) = ToLower U s"
  by (simp add: ToLower_def isASCII_map_lowerByte hasUpper_map_lowerByte)

lemma ToLower_ascii_clean:
  assumes "isASCII s" "CHR '' '' \<notin> set s" "CHR ''-'' \<notin> set s"
  shows "CHR '' '' \<notin> set (ToLower U s) \<and> CHR ''-'' \<notin> set (ToLower U s)"
proof -
  have "CHR '' '' \<notin> set (map lowerByte s)" "CHR ''-'' \<notin> set (map lowerByte s)"
    using assms(2,3) by (induction s) (simp_all add: lowerByte_space lowerByte_hyphen)
  with assms show ?thesis by (simp add: ToLower_def)
qed

lemma underscored_clean: "CHR '' '' \<notin> set (ReplaceAll (ReplaceAll s '' '' ''_'') ''-'' ''_'')"
  "CHR ''-'' \<notin> set (ReplaceAll (ReplaceAll s '' '' ''_'') ''-'' ''_'')"
  by (auto simp: ReplaceAll_byte)

lemma clean_fixed:
  assumes "CHR '' '' \<notin> set s" "CHR ''-'' \<notin> set s"
  shows "ReplaceAll (ReplaceAll s '' '' ''_'') ''-'' ''_'' = s"
  using assms by (induction s) (auto simp: ReplaceAll_byte)

text \<open>
  C8. Header-name normalization is idempotent: normalizing a normalized name changes
  nothing; and \<open>"First Name"\<close> becomes \<open>"first_name"\<close>, \<open>"Last-Name"\<close> becomes
  \<open>"last_name"\<close>. The function is a HOL function of its argument and of the library's
  Unicode lowering, so it has no effect and its result depends on nothing else. For a
  name of ASCII bytes nothing is assumed. For any other name the result goes through
  the library's \<open>Map(unicode.ToLower, s)\<close>, of which the theorem assumes, at the one
  string it is applied to, what holds of Go's: lowering its result again changes nothing,
  and it yields no space and no hyphen from a string that has none.
\<close>

theorem normalize_idempotent:
  assumes lib: "\<not> isASCII (ReplaceAll (ReplaceAll x '' '' ''_'') ''-'' ''_'') \<Longrightarrow>
      (let y = U (ReplaceAll (ReplaceAll x '' '' ''_'') ''-'' ''_'')
       in ToLower U y = y \<and> CHR '' '' \<notin> set y \<and> CHR ''-'' \<notin> set y)"
  shows "normalize U (normalize U x) = normalize U x
    \<and> normalize U ''First Name'' = ''first_name''
    \<and> normalize U ''Last-Name'' = ''last_name''"
proof -
  define r where "r = ReplaceAll (ReplaceAll x '' '' ''_'') ''-'' ''_''"
  have r_clean: "CHR '' '' \<notin> set r" "CHR ''-'' \<notin> set r"
    unfolding r_def by (rule underscored_clean)+
  have n: "normalize U x = ToLower U r"
    by (simp add: normalize_def r_def)
  have clean: "CHR '' '' \<notin> set (ToLower U r) \<and> CHR ''-'' \<notin> set (ToLower U r)"
  proof (cases "isASCII r")
    case True
    then show ?thesis using r_clean by (rule ToLower_ascii_clean)
  next
    case False
    then show ?thesis using lib by (simp add: ToLower_def r_def Let_def)
  qed
  have idem: "ToLower U (ToLower U r) = ToLower U r"
  proof (cases "isASCII r")
    case True
    then show ?thesis by (rule ToLower_ascii_idem)
  next
    case False
    then show ?thesis using lib by (simp add: ToLower_def r_def Let_def)
  qed
  have "normalize U (normalize U x) = ToLower U (ToLower U r)"
    unfolding n using clean by (simp add: normalize_def clean_fixed)
  then have 1: "normalize U (normalize U x) = normalize U x"
    by (simp add: n idem)
  have 2: "normalize U ''First Name'' = ''first_name''"
    by (simp add: normalize_def ToLower_def isASCII_def hasUpper_def lowerByte_def
        isUpperByte_def char_of_eq_iff)
  have 3: "normalize U ''Last-Name'' = ''last_name''"
    by (simp add: normalize_def ToLower_def isASCII_def hasUpper_def lowerByte_def
        isUpperByte_def char_of_eq_iff)
  from 1 2 3 show ?thesis by simp
qed

text \<open>
  The witness is a name with a two-byte UTF-8 letter (the e with acute accent of "Cafe"),
  with a lowering that lowers the ASCII letters and keeps every other byte, as Go's does
  on this string.
\<close>

theorem normalize_idempotent_witness:
  "normalize (map lowerByte)
     (normalize (map lowerByte) (''Caf'' @ [CHR 0xC3, CHR 0xA9] @ '' Bar-X''))
   = ''caf'' @ [CHR 0xC3, CHR 0xA9] @ ''_bar_x''"
proof -
  let ?x = "''Caf'' @ [CHR 0xC3, CHR 0xA9] @ '' Bar-X''"
  let ?r = "ReplaceAll (ReplaceAll ?x '' '' ''_'') ''-'' ''_''"
  have r: "?r = ''Caf'' @ [CHR 0xC3, CHR 0xA9] @ ''_Bar_X''"
    by simp
  have l: "map lowerByte (''Caf'' @ [CHR 0xC3, CHR 0xA9] @ ''_Bar_X'')
             = ''caf'' @ [CHR 0xC3, CHR 0xA9] @ ''_bar_x''"
    by (simp add: lowerByte_def isUpperByte_def char_of_eq_iff)
  have h: "let y = map lowerByte ?r
           in ToLower (map lowerByte) y = y \<and> CHR '' '' \<notin> set y \<and> CHR ''-'' \<notin> set y"
    unfolding r l by (simp add: ToLower_def isASCII_def lowerByte_def isUpperByte_def)
  have v: "normalize (map lowerByte) ?x = ''caf'' @ [CHR 0xC3, CHR 0xA9] @ ''_bar_x''"
    unfolding normalize_def r
    by (simp add: ToLower_def isASCII_def hasUpper_def lowerByte_def isUpperByte_def
        char_of_eq_iff)
  from normalize_idempotent [of ?x "map lowerByte"] h
  have "normalize (map lowerByte) (normalize (map lowerByte) ?x) = normalize (map lowerByte) ?x"
    by blast
  with v show ?thesis by simp
qed

section \<open>The copy loop and the transaction\<close>

lemma copy_loop_Nil: "copy_loop F [] n w = (Inr n, w)"
  by simp

lemma copy_loop_ReadErr:
  "copy_loop F (ReadErr msg # rest) n w =
     (if msg = ''EOF'' then (Inr n, w) else (Inl (ReadLineError (n + 1) msg), w))"
  by simp

lemma copy_loop_Record:
  "copy_loop F (Record r # rest) n w =
     (case stmt_Exec F r w of
        (Some e, w') \<Rightarrow> (Inl (CopyLineError (n + 1) e), w')
      | (None, w') \<Rightarrow>
          copy_loop F rest (n + 1)
            (if (n + 1) mod 100000 = 0 then Println (OutProgress (n + 1)) w' else w'))"
  by (subst copy_loop.simps) simp

lemmas copy_loop_unfold = copy_loop_Nil copy_loop_ReadErr copy_loop_Record

declare copy_loop.simps [simp del]

lemma accepts_append:
  "accepts F h (ops @ ops') = (accepts F h ops \<and> accepts F (h @ accepted ops) ops')"
  by (induction ops arbitrary: h) (auto simp: accepted_def)

lemma issued_accepts: "accepts F h ops \<Longrightarrow> issued F h ops = accepted ops"
  by (induction ops arbitrary: h) (auto simp: accepted_def)

lemma map_fst_issued: "map fst (issued F h ops) = ops"
  by (induction ops arbitrary: h) auto

lemma map_fst_accepted: "map fst (accepted ops) = ops"
  by (simp add: accepted_def comp_def)

lemma leading_append: "leading (map Record recs @ rest) = recs @ leading rest"
  by (induction recs) auto

lemma stop_msg_append: "stop_msg (map Record recs @ rest) = stop_msg rest"
  by (induction recs) auto

lemma stmt_Exec_cases:
  "stmt_Exec F args w =
     (F (oplog w) (StmtExec args),
      (if F (oplog w) (StmtExec args) = None \<and> args \<noteq> []
       then w\<lparr>oplog := oplog w @ [(StmtExec args, F (oplog w) (StmtExec args))],
              staged := staged w @ [args]\<rparr>
       else w\<lparr>oplog := oplog w @ [(StmtExec args, F (oplog w) (StmtExec args))]\<rparr>))"
  by (auto simp: stmt_Exec_def issue_def split: option.splits)

lemma copy_loop_frame:
  "copy_loop F rd n w = (res, w') \<Longrightarrow>
     relations w' = relations w \<and> txOpen w' = txOpen w \<and> copyTarget w' = copyTarget w"
proof (induction rd arbitrary: n w)
  case Nil
  then show ?case by (simp add: copy_loop_Nil)
next
  case (Cons a rd)
  show ?case
  proof (cases a)
    case (ReadErr msg)
    with Cons.prems show ?thesis by (auto simp: copy_loop_ReadErr split: if_splits)
  next
    case (Record r)
    show ?thesis
    proof (cases "F (oplog w) (StmtExec r)")
      case (Some e)
      with Cons.prems Record show ?thesis
        by (auto simp: copy_loop_Record stmt_Exec_cases)
    next
      case None
      with Cons.prems Record obtain w1 where
        step: "copy_loop F rd (n + 1) w1 = (res, w')"
        and w1: "relations w1 = relations w" "txOpen w1 = txOpen w" "copyTarget w1 = copyTarget w"
        by (auto simp: copy_loop_Record stmt_Exec_cases Println_def split: if_splits)
      from Cons.IH [OF step] w1 show ?thesis by simp
    qed
  qed
qed

lemma copy_loop_log:
  "copy_loop F rd n w = (res, w') \<Longrightarrow>
     \<exists>ents. oplog w' = oplog w @ ents \<and> list_all (\<lambda>e. \<not> is_Exec (fst e)) ents"
proof (induction rd arbitrary: n w)
  case Nil
  then show ?case by (simp add: copy_loop_Nil)
next
  case (Cons a rd)
  show ?case
  proof (cases a)
    case (ReadErr msg)
    with Cons.prems show ?thesis by (auto simp: copy_loop_ReadErr split: if_splits)
  next
    case (Record r)
    show ?thesis
    proof (cases "F (oplog w) (StmtExec r)")
      case (Some e)
      with Cons.prems Record show ?thesis
        by (auto simp: copy_loop_Record stmt_Exec_cases)
    next
      case None
      with Cons.prems Record obtain w1 where
        step: "copy_loop F rd (n + 1) w1 = (res, w')"
        and w1: "oplog w1 = oplog w @ [(StmtExec r, None)]"
        by (auto simp: copy_loop_Record stmt_Exec_cases Println_def split: if_splits)
      from Cons.IH [OF step] w1 show ?thesis by auto
    qed
  qed
qed

lemma copy_loop_Inr:
  "copy_loop F rd n w = (Inr m, w') \<Longrightarrow>
     m = n + length (leading rd) \<and> stop_msg rd = ''EOF''
     \<and> accepts F (oplog w) (map StmtExec (leading rd))
     \<and> oplog w' = oplog w @ accepted (map StmtExec (leading rd))
     \<and> staged w' = staged w @ filter (\<lambda>r. r \<noteq> []) (leading rd)"
proof (induction rd arbitrary: n w)
  case Nil
  then show ?case by (simp add: copy_loop_Nil accepted_def)
next
  case (Cons a rd)
  show ?case
  proof (cases a)
    case (ReadErr msg)
    with Cons.prems show ?thesis
      by (auto simp: copy_loop_ReadErr accepted_def split: if_splits)
  next
    case (Record r)
    show ?thesis
    proof (cases "F (oplog w) (StmtExec r)")
      case (Some e)
      with Cons.prems Record show ?thesis
        by (auto simp: copy_loop_Record stmt_Exec_cases)
    next
      case None
      with Cons.prems Record obtain w1 where
        step: "copy_loop F rd (n + 1) w1 = (Inr m, w')"
        and w1: "oplog w1 = oplog w @ [(StmtExec r, None)]"
          "staged w1 = staged w @ filter (\<lambda>r. r \<noteq> []) [r]"
        by (auto simp: copy_loop_Record stmt_Exec_cases Println_def split: if_splits)
      from Cons.IH [OF step] w1 None Record show ?thesis
        by (simp add: accepted_def)
    qed
  qed
qed

lemma copy_loop_accepts:
  "accepts F (oplog w) (map StmtExec (leading rd)) \<Longrightarrow>
     \<exists>w'. copy_loop F rd n w =
            (if stop_msg rd = ''EOF'' then Inr (n + length (leading rd))
             else Inl (ReadLineError (n + length (leading rd) + 1) (stop_msg rd)), w')
        \<and> oplog w' = oplog w @ accepted (map StmtExec (leading rd))
        \<and> staged w' = staged w @ filter (\<lambda>r. r \<noteq> []) (leading rd)"
proof (induction rd arbitrary: n w)
  case Nil
  then show ?case by (simp add: copy_loop_Nil accepted_def)
next
  case (Cons a rd)
  show ?case
  proof (cases a)
    case (ReadErr msg)
    then show ?thesis by (simp add: copy_loop_ReadErr accepted_def)
  next
    case (Record r)
    with Cons.prems have ok: "F (oplog w) (StmtExec r) = None"
      and rest: "accepts F (oplog w @ [(StmtExec r, None)]) (map StmtExec (leading rd))"
      by simp_all
    define w1 where "w1 = snd (stmt_Exec F r w)"
    define w2 where "w2 = (if (n + 1) mod 100000 = 0 then Println (OutProgress (n + 1)) w1 else w1)"
    have w2: "oplog w2 = oplog w @ [(StmtExec r, None)]"
      "staged w2 = staged w @ filter (\<lambda>r. r \<noteq> []) [r]"
      using ok by (auto simp: w2_def w1_def stmt_Exec_cases Println_def)
    have step: "copy_loop F (a # rd) n w = copy_loop F rd (n + 1) w2"
      using ok Record by (simp add: copy_loop_Record stmt_Exec_cases w2_def w1_def)
    from rest w2 have "accepts F (oplog w2) (map StmtExec (leading rd))" by simp
    from Cons.IH [OF this, of "n + 1"] w2 Record step show ?thesis
      by (auto simp: accepted_def)
  qed
qed

lemma copy_loop_reject:
  assumes "accepts F (oplog w) (map StmtExec recs)"
    and "F (oplog w @ accepted (map StmtExec recs)) (StmtExec r) = Some e"
  shows "\<exists>w'. copy_loop F (map Record recs @ Record r # rest) n w =
            (Inl (CopyLineError (n + length recs + 1) e), w')
        \<and> oplog w' = oplog w @ accepted (map StmtExec recs) @ [(StmtExec r, Some e)]"
  using assms
proof (induction recs arbitrary: n w)
  case Nil
  then show ?case by (simp add: copy_loop_Record stmt_Exec_cases accepted_def)
next
  case (Cons a recs)
  then have ok: "F (oplog w) (StmtExec a) = None"
    and rest: "accepts F (oplog w @ [(StmtExec a, None)]) (map StmtExec recs)"
    by simp_all
  define w1 where "w1 = snd (stmt_Exec F a w)"
  define w2 where "w2 = (if (n + 1) mod 100000 = 0 then Println (OutProgress (n + 1)) w1 else w1)"
  have w2: "oplog w2 = oplog w @ [(StmtExec a, None)]"
    using ok by (auto simp: w2_def w1_def stmt_Exec_cases Println_def)
  have step: "copy_loop F (map Record (a # recs) @ Record r # rest) n w
                = copy_loop F (map Record recs @ Record r # rest) (n + 1) w2"
    using ok by (simp add: copy_loop_Record stmt_Exec_cases w2_def w1_def)
  have 1: "accepts F (oplog w2) (map StmtExec recs)" using rest w2 by simp
  have 2: "F (oplog w2 @ accepted (map StmtExec recs)) (StmtExec r) = Some e"
    using Cons.prems(2) w2 by (simp add: accepted_def)
  from Cons.IH [OF 1 2, of "n + 1"] w2 step show ?case
    by (auto simp: accepted_def)
qed

lemma copy_loop_EOF_message:
  "copy_loop F (map Record recs @ ReadErr ''EOF'' # rest) n w = copy_loop F (map Record recs) n w"
proof (induction recs arbitrary: n w)
  case Nil
  show ?case by (simp add: copy_loop_ReadErr copy_loop_Nil)
next
  case (Cons a recs)
  show ?case
    by (cases "F (oplog w) (StmtExec a)")
       (simp_all add: copy_loop_Record stmt_Exec_cases Cons.IH)
qed

lemma copy_loop_Inl:
  "copy_loop F rd n w = (Inl e, w') \<Longrightarrow>
     (\<exists>k msg. e = ReadLineError k msg) \<or> (\<exists>k msg. e = CopyLineError k msg)"
proof (induction rd arbitrary: n w)
  case Nil
  then show ?case by (simp add: copy_loop_Nil)
next
  case (Cons a rd)
  show ?case
  proof (cases a)
    case (ReadErr msg)
    with Cons.prems show ?thesis by (auto simp: copy_loop_ReadErr split: if_splits)
  next
    case (Record r)
    show ?thesis
    proof (cases "F (oplog w) (StmtExec r)")
      case (Some e)
      with Cons.prems Record show ?thesis
        by (auto simp: copy_loop_Record stmt_Exec_cases)
    next
      case None
      with Cons.prems Record obtain w1 where
        step: "copy_loop F rd (n + 1) w1 = (Inl e, w')"
        by (auto simp: copy_loop_Record stmt_Exec_cases split: if_splits)
      from Cons.IH [OF step] show ?thesis .
    qed
  qed
qed

lemma db_Exec_cases:
  "db_Exec F st w =
     (F (oplog w) (Exec st),
      (if F (oplog w) (Exec st) = None
       then apply_statement st (w\<lparr>oplog := oplog w @ [(Exec st, None)]\<rparr>)
       else w\<lparr>oplog := oplog w @ [(Exec st, F (oplog w) (Exec st))]\<rparr>))"
  by (auto simp: db_Exec_def issue_def split: option.splits)

lemma db_Begin_cases:
  "db_Begin F w =
     (F (oplog w) Begin,
      (if F (oplog w) Begin = None
       then w\<lparr>oplog := oplog w @ [(Begin, None)], txOpen := True, copyTarget := None, staged := []\<rparr>
       else w\<lparr>oplog := oplog w @ [(Begin, F (oplog w) Begin)]\<rparr>))"
  by (auto simp: db_Begin_def issue_def split: option.splits)

lemma tx_Prepare_cases:
  "tx_Prepare F t cols w =
     (F (oplog w) (Prepare t cols),
      (if F (oplog w) (Prepare t cols) = None
       then w\<lparr>oplog := oplog w @ [(Prepare t cols, None)], copyTarget := Some t\<rparr>
       else w\<lparr>oplog := oplog w @ [(Prepare t cols, F (oplog w) (Prepare t cols))]\<rparr>))"
  by (auto simp: tx_Prepare_def issue_def split: option.splits)

lemma stmt_Close_cases:
  "stmt_Close F w =
     (F (oplog w) StmtClose, w\<lparr>oplog := oplog w @ [(StmtClose, F (oplog w) StmtClose)]\<rparr>)"
  by (simp add: stmt_Close_def issue_def)

lemma commit_rows_oplog [simp]: "commit_rows (w\<lparr>oplog := l\<rparr>) = commit_rows w"
  by (auto simp: commit_rows_def split: option.splits)

lemma tx_Commit_cases:
  "tx_Commit F w =
     (F (oplog w) Commit,
      (if F (oplog w) Commit = None
       then w\<lparr>oplog := oplog w @ [(Commit, None)], relations := commit_rows w,
              txOpen := False, staged := []\<rparr>
       else w\<lparr>oplog := oplog w @ [(Commit, F (oplog w) Commit)], txOpen := False, staged := []\<rparr>))"
  by (auto simp: tx_Commit_def issue_def split: option.splits)

lemma tx_Rollback_cases:
  "tx_Rollback F w =
     (if txOpen w
      then w\<lparr>oplog := oplog w @ [(Rollback, F (oplog w) Rollback)], txOpen := False, staged := []\<rparr>
      else w)"
  by (simp add: tx_Rollback_def issue_def)

lemmas prim_cases = db_Exec_cases db_Begin_cases tx_Prepare_cases stmt_Exec_cases
  stmt_Close_cases tx_Commit_cases tx_Rollback_cases

lemma copyInsert_tx_Inr:
  assumes run: "copyInsert_tx F rd t hs w = (Inr m, w')"
  shows "m = length (leading rd) \<and> stop_msg rd = ''EOF''
    \<and> accepts F (oplog w)
         ([Prepare t hs] @ map StmtExec (leading rd) @ [StmtExec [], StmtClose, Commit])
    \<and> oplog w' = oplog w @ accepted
         ([Prepare t hs] @ map StmtExec (leading rd) @ [StmtExec [], StmtClose, Commit])
    \<and> \<not> txOpen w' \<and> staged w' = []
    \<and> relations w' =
         (case relations w t of
            None \<Rightarrow> relations w
          | Some r \<Rightarrow> (relations w)(t \<mapsto>
              r\<lparr>rows := rows r @ staged w @ filter (\<lambda>r. r \<noteq> []) (leading rd)\<rparr>))"
proof -
  define w1 where "w1 = Println OutStarting
     (w\<lparr>oplog := oplog w @ [(Prepare t hs, None)], copyTarget := Some t\<rparr>)"
  from run have prep: "F (oplog w) (Prepare t hs) = None"
    by (auto simp: copyInsert_tx_def tx_Prepare_cases split: if_splits option.splits)
  obtain r2 w2 where loop: "copy_loop F rd 0 w1 = (r2, w2)"
    by (cases "copy_loop F rd 0 w1")
  from run prep loop have r2: "r2 = Inr m"
    by (auto simp: copyInsert_tx_def tx_Prepare_cases w1_def
        split: sum.splits prod.splits option.splits)
  note L = copy_loop_Inr [OF loop [unfolded r2]] copy_loop_frame [OF loop]
  from run prep loop r2 have fin: "F (oplog w2) (StmtExec []) = None"
    by (auto simp: copyInsert_tx_def tx_Prepare_cases w1_def stmt_Exec_cases
        split: option.splits)
  from run prep loop r2 fin have clo: "F (oplog w2 @ [(StmtExec [], None)]) StmtClose = None"
    by (auto simp: copyInsert_tx_def tx_Prepare_cases w1_def stmt_Exec_cases stmt_Close_cases
        split: option.splits)
  from run prep loop r2 fin clo
  have com: "F (oplog w2 @ [(StmtExec [], None), (StmtClose, None)]) Commit = None"
    by (auto simp: copyInsert_tx_def tx_Prepare_cases w1_def stmt_Exec_cases stmt_Close_cases
        tx_Commit_cases split: option.splits)
  from run prep loop r2 fin clo com
  have w': "w' = w2\<lparr>oplog := oplog w2 @ [(StmtExec [], None), (StmtClose, None), (Commit, None)],
                    relations := commit_rows w2, txOpen := False, staged := []\<rparr>"
    by (auto simp: copyInsert_tx_def tx_Prepare_cases w1_def stmt_Exec_cases stmt_Close_cases
        tx_Commit_cases)
  have o1: "oplog w1 = oplog w @ [(Prepare t hs, None)]" "staged w1 = staged w"
    "relations w1 = relations w" "copyTarget w1 = Some t"
    by (simp_all add: w1_def Println_def)
  have o2: "oplog w2 = oplog w @ accepted ([Prepare t hs] @ map StmtExec (leading rd))"
    using L o1 by (simp add: accepted_def)
  have acc: "accepts F (oplog w)
         ([Prepare t hs] @ map StmtExec (leading rd) @ [StmtExec [], StmtClose, Commit])"
    using prep L o1 fin clo com o2 by (simp add: accepts_append accepted_def)
  have rel: "commit_rows w2 = (case relations w t of
            None \<Rightarrow> relations w
          | Some r \<Rightarrow> (relations w)(t \<mapsto>
              r\<lparr>rows := rows r @ staged w @ filter (\<lambda>r. r \<noteq> []) (leading rd)\<rparr>))"
    using L o1 by (auto simp: commit_rows_def split: option.splits)
  show ?thesis
    using L acc o2 rel by (simp add: w' accepted_def)
qed

lemma copyInsert_tx_Inl:
  assumes run: "copyInsert_tx F rd t hs w = (Inl e, w')"
  shows "relations w' = relations w
    \<and> ((txOpen w' = txOpen w \<and> (\<forall>msg. e \<noteq> CommitError msg))
       \<or> (\<not> txOpen w' \<and> staged w' = [] \<and> (\<exists>msg. e = CommitError msg \<and> last (oplog w') = (Commit, Some msg))))"
proof -
  define w1 where "w1 = Println OutStarting
     (w\<lparr>oplog := oplog w @ [(Prepare t hs, None)], copyTarget := Some t\<rparr>)"
  obtain r2 w2 where loop: "copy_loop F rd 0 w1 = (r2, w2)"
    by (cases "copy_loop F rd 0 w1")
  have o1: "relations w1 = relations w" "txOpen w1 = txOpen w"
    by (simp_all add: w1_def Println_def)
  note fr = copy_loop_frame [OF loop]
  have inl: "r2 = Inl e' \<Longrightarrow> (\<forall>msg. e' \<noteq> CommitError msg)" for e'
    using copy_loop_Inl [of F rd 0 w1 e' w2] loop by auto
  show ?thesis
  proof (cases "F (oplog w) (Prepare t hs)")
    case (Some a)
    with run show ?thesis
      by (auto simp: copyInsert_tx_def tx_Prepare_cases)
  next
    case None
    with run loop fr o1 inl show ?thesis
      by (auto simp: copyInsert_tx_def tx_Prepare_cases w1_def [symmetric] stmt_Exec_cases
          stmt_Close_cases tx_Commit_cases split: sum.splits option.splits if_splits)
  qed
qed

lemma copyInsert_tx_log:
  assumes run: "copyInsert_tx F rd t hs w = (res, w')"
  shows "\<exists>ents. oplog w' = oplog w @ ents \<and> ents \<noteq> []
           \<and> list_all (\<lambda>e. \<not> is_Exec (fst e)) ents"
proof -
  define w1 where "w1 = Println OutStarting
     (w\<lparr>oplog := oplog w @ [(Prepare t hs, None)], copyTarget := Some t\<rparr>)"
  obtain r2 w2 where loop: "copy_loop F rd 0 w1 = (r2, w2)"
    by (cases "copy_loop F rd 0 w1")
  have o1: "oplog w1 = oplog w @ [(Prepare t hs, None)]"
    by (simp add: w1_def Println_def)
  from copy_loop_log [OF loop] o1 obtain ents where
    ents: "oplog w2 = oplog w @ (Prepare t hs, None) # ents"
      "list_all (\<lambda>e. \<not> is_Exec (fst e)) ents"
    by auto
  show ?thesis
  proof (cases "F (oplog w) (Prepare t hs)")
    case (Some a)
    with run show ?thesis
      by (auto simp: copyInsert_tx_def tx_Prepare_cases)
  next
    case None
    with run loop ents show ?thesis
      by (auto simp: copyInsert_tx_def tx_Prepare_cases w1_def [symmetric] stmt_Exec_cases
          stmt_Close_cases tx_Commit_cases split: sum.splits option.splits if_splits)
  qed
qed

lemma copyInsert_Begin_rejected:
  "F (oplog w) Begin = Some e \<Longrightarrow>
     copyInsert F rd t hs w = (Inl (BeginError e), w\<lparr>oplog := oplog w @ [(Begin, Some e)]\<rparr>)"
  by (simp add: copyInsert_def db_Begin_cases)

lemma begun_simps [simp]:
  "oplog (begun w) = oplog w @ [(Begin, None)]" "txOpen (begun w)" "staged (begun w) = []"
  "relations (begun w) = relations w" "stdout (begun w) = stdout w"
  by (simp_all add: begun_def)

lemma copyInsert_Begin_accepted:
  "F (oplog w) Begin = None \<Longrightarrow>
     copyInsert F rd t hs w =
       (fst (copyInsert_tx F rd t hs (begun w)),
        tx_Rollback F (snd (copyInsert_tx F rd t hs (begun w))))"
  by (simp add: copyInsert_def db_Begin_cases begun_def split: prod.splits)

lemma copyInsert_Inr:
  assumes run: "copyInsert F rd t hs w = (Inr m, w')"
  shows "m = length (leading rd) \<and> stop_msg rd = ''EOF''
    \<and> accepts F (oplog w)
         ([Begin, Prepare t hs] @ map StmtExec (leading rd) @ [StmtExec [], StmtClose, Commit])
    \<and> oplog w' = oplog w @ accepted
         ([Begin, Prepare t hs] @ map StmtExec (leading rd) @ [StmtExec [], StmtClose, Commit])
    \<and> \<not> txOpen w' \<and> staged w' = []
    \<and> relations w' =
         (case relations w t of
            None \<Rightarrow> relations w
          | Some r \<Rightarrow> (relations w)(t \<mapsto>
              r\<lparr>rows := rows r @ filter (\<lambda>r. r \<noteq> []) (leading rd)\<rparr>))"
proof (cases "F (oplog w) Begin")
  case (Some e)
  with run show ?thesis by (simp add: copyInsert_Begin_rejected)
next
  case None
  obtain r2 w2 where tx: "copyInsert_tx F rd t hs (begun w) = (r2, w2)"
    by (cases "copyInsert_tx F rd t hs (begun w)")
  with run None have r2: "r2 = Inr m" and w': "w' = tx_Rollback F w2"
    by (simp_all add: copyInsert_Begin_accepted)
  note T = copyInsert_tx_Inr [OF tx [unfolded r2]]
  from T have "w' = w2" by (simp add: w' tx_Rollback_cases)
  with T None show ?thesis by (auto simp: accepted_def split: option.splits)
qed

lemma copyInsert_Inl:
  assumes run: "copyInsert F rd t hs w = (Inl e, w')"
  shows "relations w' = relations w
    \<and> (F (oplog w) Begin = None \<longrightarrow>
          \<not> txOpen w' \<and> staged w' = []
          \<and> (fst (last (oplog w')) = Rollback
             \<or> (\<exists>msg. e = CommitError msg \<and> last (oplog w') = (Commit, Some msg))))"
proof (cases "F (oplog w) Begin")
  case (Some a)
  with run show ?thesis by (auto simp: copyInsert_Begin_rejected)
next
  case None
  obtain r2 w2 where tx: "copyInsert_tx F rd t hs (begun w) = (r2, w2)"
    by (cases "copyInsert_tx F rd t hs (begun w)")
  with run None have r2: "r2 = Inl e" and w': "w' = tx_Rollback F w2"
    by (simp_all add: copyInsert_Begin_accepted)
  from copyInsert_tx_Inl [OF tx [unfolded r2]] None show ?thesis
    by (auto simp: w' tx_Rollback_cases)
qed

lemma copyInsert_log:
  assumes run: "copyInsert F rd t hs w = (res, w')"
  shows "\<exists>ents. oplog w' = oplog w @ ents \<and> ents \<noteq> [] \<and> fst (hd ents) = Begin
           \<and> list_all (\<lambda>e. \<not> is_Exec (fst e)) ents"
proof (cases "F (oplog w) Begin")
  case (Some a)
  with run show ?thesis by (auto simp: copyInsert_Begin_rejected)
next
  case None
  obtain r2 w2 where tx: "copyInsert_tx F rd t hs (begun w) = (r2, w2)"
    by (cases "copyInsert_tx F rd t hs (begun w)")
  with run None have w': "w' = tx_Rollback F w2"
    by (simp_all add: copyInsert_Begin_accepted)
  from copyInsert_tx_log [OF tx] obtain ents where
    "oplog w2 = oplog w @ (Begin, None) # ents" "list_all (\<lambda>e. \<not> is_Exec (fst e)) ents"
    by auto
  then show ?thesis
    by (auto simp: w' tx_Rollback_cases)
qed

lemma prepared_simps [simp]:
  "oplog (prepared t hs w) = oplog w @ [(Begin, None), (Prepare t hs, None)]"
  "txOpen (prepared t hs w)" "staged (prepared t hs w) = []"
  "relations (prepared t hs w) = relations w" "copyTarget (prepared t hs w) = Some t"
  "stdout (prepared t hs w) = stdout w @ [OutStarting]"
  by (simp_all add: prepared_def Println_def)

lemma copyInsert_tx_prepared:
  "F (oplog w @ [(Begin, None)]) (Prepare t hs) = None \<Longrightarrow>
     copyInsert_tx F rd t hs (begun w) =
       (case copy_loop F rd 0 (prepared t hs w) of
          (Inl e, w2) \<Rightarrow> (Inl e, w2)
        | (Inr lineCount, w2) \<Rightarrow>
            (case stmt_Exec F [] w2 of
               (Some e, w3) \<Rightarrow> (Inl (FinalizeError e), w3)
             | (None, w3) \<Rightarrow>
                 (case stmt_Close F w3 of
                    (Some e, w4) \<Rightarrow> (Inl (CloseError e), w4)
                  | (None, w4) \<Rightarrow>
                      (case tx_Commit F w4 of
                         (Some e, w5) \<Rightarrow> (Inl (CommitError e), w5)
                       | (None, w5) \<Rightarrow> (Inr lineCount, w5)))))"
  by (simp add: copyInsert_tx_def tx_Prepare_cases prepared_def)

lemma accepts_start:
  assumes "accepts F (oplog w) ([Begin, Prepare t hs] @ ops)"
  shows "F (oplog w) Begin = None" "F (oplog w @ [(Begin, None)]) (Prepare t hs) = None"
    "accepts F (oplog (prepared t hs w)) ops"
  using assms by simp_all

lemma copyInsert_read_error:
  assumes acc: "accepts F (oplog w) ([Begin, Prepare t hs] @ map StmtExec (leading rd))"
    and stop: "stop_msg rd \<noteq> ''EOF''"
  shows "\<exists>w'. copyInsert F rd t hs w =
            (Inl (ReadLineError (length (leading rd) + 1) (stop_msg rd)), w')
        \<and> map fst (new_entries w w') =
            [Begin, Prepare t hs] @ map StmtExec (leading rd) @ [Rollback]"
proof -
  note A = accepts_start [OF acc]
  from copy_loop_accepts [OF A(3), of 0] stop obtain w2 where
    loop: "copy_loop F rd 0 (prepared t hs w) =
            (Inl (ReadLineError (length (leading rd) + 1) (stop_msg rd)), w2)"
    and log: "oplog w2 = oplog (prepared t hs w) @ accepted (map StmtExec (leading rd))"
    by auto
  from copy_loop_frame [OF loop] have "txOpen w2" by simp
  with loop log A show ?thesis
    by (simp add: copyInsert_Begin_accepted copyInsert_tx_prepared tx_Rollback_cases
        new_entries_def accepted_def comp_def)
qed

lemma copyInsert_row_rejected:
  assumes acc: "accepts F (oplog w) ([Begin, Prepare t hs] @ map StmtExec recs)"
    and rej: "F (oplog w @ accepted ([Begin, Prepare t hs] @ map StmtExec recs)) (StmtExec r) = Some e"
  shows "\<exists>w'. copyInsert F (map Record recs @ Record r # rest) t hs w =
            (Inl (CopyLineError (length recs + 1) e), w')
        \<and> map fst (new_entries w w') =
            [Begin, Prepare t hs] @ map StmtExec recs @ [StmtExec r, Rollback]"
proof -
  note A = accepts_start [OF acc]
  from rej have rej': "F (oplog (prepared t hs w) @ accepted (map StmtExec recs)) (StmtExec r) = Some e"
    by (simp add: accepted_def)
  from copy_loop_reject [OF A(3) rej', of rest 0] obtain w2 where
    loop: "copy_loop F (map Record recs @ Record r # rest) 0 (prepared t hs w) =
            (Inl (CopyLineError (length recs + 1) e), w2)"
    and log: "oplog w2 = oplog (prepared t hs w) @ accepted (map StmtExec recs) @ [(StmtExec r, Some e)]"
    by auto
  from copy_loop_frame [OF loop] have "txOpen w2" by simp
  with loop log A show ?thesis
    by (simp add: copyInsert_Begin_accepted copyInsert_tx_prepared tx_Rollback_cases
        new_entries_def accepted_def comp_def)
qed

lemma copyInsert_succeeds:
  assumes acc: "accepts F (oplog w)
      ([Begin, Prepare t hs] @ map StmtExec (leading rd) @ [StmtExec [], StmtClose, Commit])"
    and stop: "stop_msg rd = ''EOF''"
  shows "\<exists>w'. copyInsert F rd t hs w = (Inr (length (leading rd)), w')"
proof -
  from acc have acc1: "accepts F (oplog w) ([Begin, Prepare t hs] @ map StmtExec (leading rd))"
    and fin: "accepts F (oplog w @ accepted ([Begin, Prepare t hs] @ map StmtExec (leading rd)))
                [StmtExec [], StmtClose, Commit]"
    using accepts_append [of F "oplog w" "[Begin, Prepare t hs] @ map StmtExec (leading rd)"
        "[StmtExec [], StmtClose, Commit]"]
    by simp_all
  note A = accepts_start [OF acc1]
  from copy_loop_accepts [OF A(3), of 0] stop obtain w2 where
    loop: "copy_loop F rd 0 (prepared t hs w) = (Inr (length (leading rd)), w2)"
    and log: "oplog w2 = oplog (prepared t hs w) @ accepted (map StmtExec (leading rd))"
    by auto
  from fin log have
    "F (oplog w2) (StmtExec []) = None"
    "F (oplog w2 @ [(StmtExec [], None)]) StmtClose = None"
    "F (oplog w2 @ [(StmtExec [], None), (StmtClose, None)]) Commit = None"
    by (simp_all add: accepted_def)
  with loop A show ?thesis
    by (simp add: copyInsert_Begin_accepted copyInsert_tx_prepared stmt_Exec_cases
        stmt_Close_cases tx_Commit_cases)
qed

lemmas run_defs = copyInsert_def copyInsert_tx_def db_Begin_def tx_Prepare_def stmt_Exec_def
  stmt_Close_def tx_Commit_def tx_Rollback_def db_Exec_def issue_def commit_rows_def
  Println_def copy_loop_unfold new_entries_def

text \<open>
  C1. All-or-nothing copy. Whatever the record source and the destination do, for a run
  of copyInsert: if any operation it issued was rejected (db.Begin, the preparation of
  the COPY, the submission of a record, the finalizing submission, stmt.Close or
  tx.Commit), the result is an error; when the result is an error, the relations of the
  destination are those from before the call, so no row was committed; when the
  transaction had begun, it is closed at the end with nothing staged, the last operation
  being the deferred tx.Rollback, or the rejected tx.Commit, after which database/sql
  has already ended the transaction. When the result is not an error, every record
  read up to the end of the input was submitted and accepted, then the finalizing
  submission, stmt.Close and tx.Commit were accepted, and only then are the rows in
  the relation. (A record without fields, which encoding/csv never returns, would be
  a finalizing submission for lib/pq and stages no row.)
\<close>

theorem copyInsert_all_or_nothing:
  assumes run: "copyInsert F reader tableName headers w = (res, w')"
  shows "(list_ex (\<lambda>e. snd e \<noteq> None) (new_entries w w') \<longrightarrow> isl res)
    \<and> (isl res \<longrightarrow> relations w' = relations w)
    \<and> (isl res \<and> F (oplog w) Begin = None \<longrightarrow>
          \<not> txOpen w' \<and> staged w' = []
          \<and> (fst (last (oplog w')) = Rollback \<or> (\<exists>msg. last (oplog w') = (Commit, Some msg))))
    \<and> (\<not> isl res \<longrightarrow>
          res = Inr (length (leading reader)) \<and> stop_msg reader = ''EOF''
          \<and> new_entries w w' = accepted
               ([Begin, Prepare tableName headers] @ map StmtExec (leading reader)
                @ [StmtExec [], StmtClose, Commit])
          \<and> \<not> txOpen w' \<and> staged w' = []
          \<and> relations w' =
               (case relations w tableName of
                  None \<Rightarrow> relations w
                | Some r \<Rightarrow> (relations w)(tableName \<mapsto>
                    r\<lparr>rows := rows r @ filter (\<lambda>r. r \<noteq> []) (leading reader)\<rparr>)))"
proof (cases res)
  case (Inl e)
  with copyInsert_Inl [of F reader tableName headers w e w'] run show ?thesis
    by auto
next
  case (Inr m)
  note S = copyInsert_Inr [OF run [unfolded Inr]]
  have "\<not> list_ex (\<lambda>e. snd e \<noteq> None) (accepted ops)" for ops
    by (induction ops) (simp_all add: accepted_def)
  with S Inr show ?thesis
    by (simp add: new_entries_def)
qed

text \<open>
  Witness: the destination rejects the second record of two; the error names line 2 and
  the relation \<open>people\<close> keeps zero rows.
\<close>

theorem copyInsert_all_or_nothing_witness:
  "fst (copyInsert (reject_op (StmtExec [''Alan'', ''41''])) people_rows ''people''
          [''name'', ''age''] people_world) = Inl (CopyLineError 2 ''rejected'')
   \<and> relations (snd (copyInsert (reject_op (StmtExec [''Alan'', ''41''])) people_rows ''people''
          [''name'', ''age''] people_world)) ''people''
       = Some \<lparr>columns = [''name TEXT'', ''age TEXT''], rows = []\<rparr>"
proof -
  let ?run = "copyInsert (reject_op (StmtExec [''Alan'', ''41''])) people_rows ''people''
          [''name'', ''age''] people_world"
  have r: "fst ?run = Inl (CopyLineError 2 ''rejected'')"
    by (simp add: run_defs people_rows_def people_world_def reject_op_def)
  have "?run = (fst ?run, snd ?run)" by simp
  from copyInsert_all_or_nothing [OF this] r
  have "relations (snd ?run) = relations people_world" by simp
  with r show ?thesis by (simp add: people_world_def)
qed

lemma optimize_loop_effect:
  "oplog (optimize_loop F sqls w) =
     oplog w @ issued F (oplog w) (map (\<lambda>sql. Exec (RawSQL sql)) sqls)
   \<and> relations (optimize_loop F sqls w) = relations w
   \<and> txOpen (optimize_loop F sqls w) = txOpen w
   \<and> staged (optimize_loop F sqls w) = staged w
   \<and> copyTarget (optimize_loop F sqls w) = copyTarget w
   \<and> stdout (optimize_loop F sqls w) = stdout w"
proof (induction sqls arbitrary: w)
  case Nil
  show ?case by simp
next
  case (Cons sql sqls)
  show ?case
    by (cases "F (oplog w) (Exec (RawSQL sql))") (simp_all add: db_Exec_cases Cons.IH)
qed

lemma tuned_simps [simp]:
  "oplog (tuned E csvPath headers w) = oplog w @ issued (faults E) (oplog w) tuning_ops"
  "relations (tuned E csvPath headers w) = relations w"
  "txOpen (tuned E csvPath headers w) = txOpen w"
  "staged (tuned E csvPath headers w) = staged w"
  "stdout (tuned E csvPath headers w) =
     stdout w @ [OutCSV csvPath, OutColumns headers, OutOptimized]"
  by (simp_all add: tuned_def optimizeForBulkInsert_def Println_def optimize_loop_effect
      tuning_ops_def)

lemma ProcessCSVOptimized_opened:
  assumes "files E csvPath = Inr (Record headers # reader)"
  shows "ProcessCSVOptimized E csvPath tableName w =
     (case db_Exec (faults E) (DropTableIfExists tableName) (tuned E csvPath headers w) of
        (Some e, w2) \<Rightarrow> (Some (DropError e), w2)
      | (None, w2) \<Rightarrow>
          (case db_Exec (faults E)
                  (CreateUnloggedTable tableName (snd (derive_schema (mapLower E) headers)))
                  (Println (OutCreating tableName) w2) of
             (Some e, w3) \<Rightarrow> (Some (CreateError e), w3)
           | (None, w3) \<Rightarrow>
               (case copyInsert (faults E) reader tableName
                       (fst (derive_schema (mapLower E) headers)) w3 of
                  (Inl e, w4) \<Rightarrow> (Some e, w4)
                | (Inr lineCount, w4) \<Rightarrow>
                    (None,
                     Println (OutSummary lineCount (seconds E)
                                (linesPerSec lineCount (seconds E))) w4))))"
proof -
  obtain cleanHeaders cols where d: "derive_schema (mapLower E) headers = (cleanHeaders, cols)"
    by (cases "derive_schema (mapLower E) headers")
  obtain ignored w1 where t: "optimizeForBulkInsert (faults E)
      (Println (OutColumns headers) (Println (OutCSV csvPath) w)) = (ignored, w1)"
    by (cases "optimizeForBulkInsert (faults E)
      (Println (OutColumns headers) (Println (OutCSV csvPath) w))")
  show ?thesis
    using assms by (simp add: ProcessCSVOptimized_def tuned_def d t
        cong del: option.case_cong_weak prod.case_cong_weak)
qed

lemma Process_drop_rejected:
  assumes "files E csvPath = Inr (Record headers # reader)"
    and "faults E (oplog (tuned E csvPath headers w)) (Exec (DropTableIfExists tableName)) = Some e"
  shows "ProcessCSVOptimized E csvPath tableName w =
           (Some (DropError e), dropped E csvPath tableName headers w)"
    and "oplog (dropped E csvPath tableName headers w) =
           oplog (tuned E csvPath headers w) @ [(Exec (DropTableIfExists tableName), Some e)]"
  using assms(2)
  by (simp_all add: ProcessCSVOptimized_opened [OF assms(1)] dropped_def db_Exec_cases)

lemma dropped_simps:
  assumes "faults E (oplog (tuned E csvPath headers w)) (Exec (DropTableIfExists tableName)) = None"
  shows "oplog (dropped E csvPath tableName headers w) =
           oplog (tuned E csvPath headers w) @ [(Exec (DropTableIfExists tableName), None)]"
    "relations (dropped E csvPath tableName headers w) = (relations w)(tableName := None)"
    "stdout (dropped E csvPath tableName headers w) = stdout (tuned E csvPath headers w)"
  using assms by (simp_all add: dropped_def db_Exec_cases)

lemma Process_create_rejected:
  assumes "files E csvPath = Inr (Record headers # reader)"
    and "faults E (oplog (tuned E csvPath headers w)) (Exec (DropTableIfExists tableName)) = None"
    and "faults E (oplog (dropped E csvPath tableName headers w))
           (Exec (CreateUnloggedTable tableName (snd (derive_schema (mapLower E) headers)))) = Some e"
  shows "ProcessCSVOptimized E csvPath tableName w =
           (Some (CreateError e), created E csvPath tableName headers w)"
    and "oplog (created E csvPath tableName headers w) =
           oplog (dropped E csvPath tableName headers w)
           @ [(Exec (CreateUnloggedTable tableName (snd (derive_schema (mapLower E) headers))), Some e)]"
  using assms(2,3)
  by (simp_all add: ProcessCSVOptimized_opened [OF assms(1)] dropped_def created_def
      db_Exec_cases Println_def)

lemma created_simps:
  assumes "faults E (oplog (tuned E csvPath headers w)) (Exec (DropTableIfExists tableName)) = None"
    and "faults E (oplog (dropped E csvPath tableName headers w))
           (Exec (CreateUnloggedTable tableName (snd (derive_schema (mapLower E) headers)))) = None"
  shows "oplog (created E csvPath tableName headers w) =
           oplog (dropped E csvPath tableName headers w)
           @ [(Exec (CreateUnloggedTable tableName (snd (derive_schema (mapLower E) headers))), None)]"
    "relations (created E csvPath tableName headers w) =
       (relations w)(tableName \<mapsto>
          \<lparr>columns = snd (derive_schema (mapLower E) headers), rows = []\<rparr>)"
    "stdout (created E csvPath tableName headers w) =
       stdout (tuned E csvPath headers w) @ [OutCreating tableName]"
  using assms by (simp_all add: dropped_def created_def db_Exec_cases Println_def)

lemma Process_ddl_accepted:
  assumes "files E csvPath = Inr (Record headers # reader)"
    and "faults E (oplog (tuned E csvPath headers w)) (Exec (DropTableIfExists tableName)) = None"
    and "faults E (oplog (dropped E csvPath tableName headers w))
           (Exec (CreateUnloggedTable tableName (snd (derive_schema (mapLower E) headers)))) = None"
  shows "ProcessCSVOptimized E csvPath tableName w =
     (case copyInsert (faults E) reader tableName (fst (derive_schema (mapLower E) headers))
             (created E csvPath tableName headers w) of
        (Inl e, w4) \<Rightarrow> (Some e, w4)
      | (Inr lineCount, w4) \<Rightarrow>
          (None,
           Println (OutSummary lineCount (seconds E) (linesPerSec lineCount (seconds E))) w4))"
  using assms(2,3)
  by (simp add: ProcessCSVOptimized_opened [OF assms(1)] dropped_def created_def
      db_Exec_cases Println_def)

lemma Begin_notin_tuning: "Begin \<notin> set tuning_ops"
  by (auto simp: tuning_ops_def)

lemma filter_Exec_tuning: "filter is_Exec tuning_ops = tuning_ops"
  by (simp add: tuning_ops_def)

lemma new_entries_append: "oplog w' = oplog w @ ents \<Longrightarrow> new_entries w w' = ents"
  by (simp add: new_entries_def)

lemma list_all_filter_Exec:
  "list_all (\<lambda>e. \<not> is_Exec (fst e)) ents \<Longrightarrow> filter is_Exec (map fst ents) = []"
  by (induction ents) auto

text \<open>
  C4. Statement ordering and transaction boundary. An invocation of ProcessCSVOptimized
  either issues nothing (the file did not open or had no header), or it issues the
  tuning statements, then the DROP of the target relation, and, when the DROP was
  accepted, the CREATE of the relation with the derived columns; what follows the
  CREATE starts with db.Begin and holds no db.Exec any more, so both DDL statements
  come strictly before the atomic unit of work. When the unit of work was begun and the
  load failed, the relation is there with the derived columns and no row.
\<close>

theorem ddl_before_transaction:
  assumes run: "ProcessCSVOptimized E csvPath tableName w = (res, w')"
  shows "map fst (new_entries w w') = []
    \<or> (\<exists>headers reader later.
          files E csvPath = Inr (Record headers # reader)
          \<and> map fst (new_entries w w') = tuning_ops @ Exec (DropTableIfExists tableName) # later
          \<and> (later = []
             \<or> (\<exists>tx_ops.
                   later = Exec (CreateUnloggedTable tableName
                                   (snd (derive_schema (mapLower E) headers))) # tx_ops
                   \<and> (tx_ops = [] \<or> hd tx_ops = Begin)
                   \<and> filter is_Exec tx_ops = []
                   \<and> (Begin \<in> set tx_ops \<and> res \<noteq> None \<longrightarrow>
                        relations w' tableName =
                          Some \<lparr>columns = snd (derive_schema (mapLower E) headers),
                                rows = []\<rparr>))))"
proof (cases "files E csvPath")
  case (Inl e)
  with run show ?thesis
    by (auto simp: ProcessCSVOptimized_def new_entries_def)
next
  case (Inr content)
  show ?thesis
  proof (cases "Read content")
    case (Pair rr reader)
    show ?thesis
    proof (cases rr)
      case (ReadErr msg)
      with run Inr Pair show ?thesis
        by (auto simp: ProcessCSVOptimized_def new_entries_def)
    next
      case (Record headers)
      with Pair have "content = Record headers # reader"
        by (cases content) auto
      with Inr have opened: "files E csvPath = Inr (Record headers # reader)"
        by simp
      let ?F = "faults E"
      let ?cols = "snd (derive_schema (mapLower E) headers)"
      let ?tuned = "tuned E csvPath headers w"
      let ?dropped = "dropped E csvPath tableName headers w"
      let ?created = "created E csvPath tableName headers w"
      have tlog: "oplog ?tuned = oplog w @ issued ?F (oplog w) tuning_ops"
        by simp
      show ?thesis
      proof (cases "?F (oplog ?tuned) (Exec (DropTableIfExists tableName))")
        case (Some e)
        from Process_drop_rejected [OF opened Some] run
        have "oplog w' = oplog w @ issued ?F (oplog w) tuning_ops
                @ [(Exec (DropTableIfExists tableName), Some e)]"
          by simp
        then have "map fst (new_entries w w') = tuning_ops @ [Exec (DropTableIfExists tableName)]"
          by (simp add: new_entries_def map_fst_issued)
        with opened show ?thesis by auto
      next
        case None
        note D = dropped_simps [OF None]
        show ?thesis
        proof (cases "?F (oplog ?dropped) (Exec (CreateUnloggedTable tableName ?cols))")
          case (Some e)
          from Process_create_rejected [OF opened None Some] run D
          have "oplog w' = oplog w @ issued ?F (oplog w) tuning_ops
                @ [(Exec (DropTableIfExists tableName), None),
                   (Exec (CreateUnloggedTable tableName ?cols), Some e)]"
            by simp
          then have "map fst (new_entries w w') = tuning_ops
                @ [Exec (DropTableIfExists tableName), Exec (CreateUnloggedTable tableName ?cols)]"
            by (simp add: new_entries_def map_fst_issued)
          with opened show ?thesis by auto
        next
          case create: None
          note C = created_simps [OF None create]
          obtain r4 w4 where ci: "copyInsert ?F reader tableName
              (fst (derive_schema (mapLower E) headers)) ?created = (r4, w4)"
            by (cases "copyInsert ?F reader tableName
              (fst (derive_schema (mapLower E) headers)) ?created")
          from copyInsert_log [OF ci] obtain ents where
            ents: "oplog w4 = oplog ?created @ ents" "ents \<noteq> []" "fst (hd ents) = Begin"
              "list_all (\<lambda>e. \<not> is_Exec (fst e)) ents"
            by auto
          from Process_ddl_accepted [OF opened None create] run ci
          have w': "oplog w' = oplog w4" "relations w' = relations w4"
            and res: "res \<noteq> None \<Longrightarrow> isl r4"
            by (auto simp: Println_def split: sum.splits)
          have "oplog w' = oplog w @ issued ?F (oplog w) tuning_ops
                @ [(Exec (DropTableIfExists tableName), None),
                   (Exec (CreateUnloggedTable tableName ?cols), None)] @ ents"
            using w' ents C D by simp
          then have ops: "map fst (new_entries w w') = tuning_ops
                @ Exec (DropTableIfExists tableName)
                # Exec (CreateUnloggedTable tableName ?cols) # map fst ents"
            by (simp add: new_entries_def map_fst_issued)
          have hd: "hd (map fst ents) = Begin"
            using ents by (cases ents) auto
          have noexec: "filter is_Exec (map fst ents) = []"
            using ents(4) by (rule list_all_filter_Exec)
          have rel: "relations w' tableName = Some \<lparr>columns = ?cols, rows = []\<rparr>"
            if "res \<noteq> None"
          proof -
            from res [OF that] obtain e where "r4 = Inl e" by (cases r4) auto
            with copyInsert_Inl [of ?F reader tableName _ ?created e w4] ci
            have "relations w4 = relations ?created" by simp
            with w' C show ?thesis by simp
          qed
          from opened ops hd noexec rel show ?thesis by auto
        qed
      qed
    qed
  qed
qed

lemma people_schema:
  "derive_schema (map lowerByte) [''Name'', ''Age'']
     = ([''name'', ''age''], [''name TEXT'', ''age TEXT''])"
  by (simp add: normalize_def ToLower_def isASCII_def hasUpper_def lowerByte_def
      isUpperByte_def char_of_eq_iff)

lemmas process_defs = ProcessCSVOptimized_def optimizeForBulkInsert_def optimizations_def
  tuning_ops_def people_env_def empty_world_def people_rows_def reject_op_def people_schema

text \<open>
  Witness: loading \<open>people.csv\<close> into an empty destination that rejects the second
  record.
\<close>

theorem ddl_before_transaction_witness:
  "fst (ProcessCSVOptimized (people_env (reject_op (StmtExec [''Alan'', ''41''])) people_rows)
          ''people.csv'' ''people'' empty_world) = Some (CopyLineError 2 ''rejected'')
   \<and> relations
        (snd (ProcessCSVOptimized (people_env (reject_op (StmtExec [''Alan'', ''41''])) people_rows)
          ''people.csv'' ''people'' empty_world)) ''people''
       = Some \<lparr>columns = [''name TEXT'', ''age TEXT''], rows = []\<rparr>"
proof -
  let ?E = "people_env (reject_op (StmtExec [''Alan'', ''41''])) people_rows"
  let ?run = "ProcessCSVOptimized ?E ''people.csv'' ''people'' empty_world"
  have res: "fst ?run = Some (CopyLineError 2 ''rejected'')"
    by (simp add: process_defs run_defs)
  have ops: "map fst (new_entries empty_world (snd ?run)) =
      tuning_ops @ [Exec (DropTableIfExists ''people''),
        Exec (CreateUnloggedTable ''people'' [''name TEXT'', ''age TEXT'']),
        Begin, Prepare ''people'' [''name'', ''age''],
        StmtExec [''Ada'', ''36''], StmtExec [''Alan'', ''41''], Rollback]"
    by (simp add: process_defs run_defs del: derive_schema.simps)
  have opened: "files ?E ''people.csv'' = Inr (Record [''Name'', ''Age''] # people_rows)"
    "mapLower ?E = map lowerByte"
    by (simp_all add: people_env_def)
  have "?run = (fst ?run, snd ?run)" by simp
  from ddl_before_transaction [OF this] res ops opened
  have "relations (snd ?run) ''people'' = Some \<lparr>columns = [''name TEXT'', ''age TEXT''], rows = []\<rparr>"
    by (auto simp: people_schema)
  with res show ?thesis by simp
qed

text \<open>
  C7. Row-level error context. Let the transaction begin, the COPY be prepared and the
  first K-1 records be read and accepted (K-1 is \<open>length recs\<close>). If reading record K
  fails with a message other than \<open>"EOF"\<close>, copyInsert returns the error
  "error reading line K: msg"; if the destination rejects record K, it returns
  "error copying line K: e". In both cases the log shows that the load stopped there:
  the K-1 earlier submissions, the rejected submission once (in the second case), then
  the deferred rollback, and nothing of what follows in the source, whatever it is.
\<close>

theorem row_error_context:
  assumes acc: "accepts F (oplog w) ([Begin, Prepare tableName headers] @ map StmtExec recs)"
  shows "(msg \<noteq> ''EOF'' \<longrightarrow>
           fst (copyInsert F (map Record recs @ ReadErr msg # rest) tableName headers w)
             = Inl (ReadLineError (length recs + 1) msg)
           \<and> map fst (new_entries w
                (snd (copyInsert F (map Record recs @ ReadErr msg # rest) tableName headers w)))
             = [Begin, Prepare tableName headers] @ map StmtExec recs @ [Rollback])
    \<and> (F (oplog w @ accepted ([Begin, Prepare tableName headers] @ map StmtExec recs))
           (StmtExec r) = Some e \<longrightarrow>
           fst (copyInsert F (map Record recs @ Record r # rest) tableName headers w)
             = Inl (CopyLineError (length recs + 1) e)
           \<and> map fst (new_entries w
                (snd (copyInsert F (map Record recs @ Record r # rest) tableName headers w)))
             = [Begin, Prepare tableName headers] @ map StmtExec recs @ [StmtExec r, Rollback])"
proof (intro conjI impI)
  assume msg: "msg \<noteq> ''EOF''"
  let ?rd = "map Record recs @ ReadErr msg # rest"
  have l: "leading ?rd = recs" and s: "stop_msg ?rd = msg"
    by (simp_all add: leading_append stop_msg_append)
  from copyInsert_read_error [of F w tableName headers ?rd] acc msg l s
  obtain w' where "copyInsert F ?rd tableName headers w
        = (Inl (ReadLineError (length recs + 1) msg), w')"
    "map fst (new_entries w w') = [Begin, Prepare tableName headers] @ map StmtExec recs @ [Rollback]"
    by auto
  then show "fst (copyInsert F ?rd tableName headers w) = Inl (ReadLineError (length recs + 1) msg)"
    and "map fst (new_entries w (snd (copyInsert F ?rd tableName headers w)))
           = [Begin, Prepare tableName headers] @ map StmtExec recs @ [Rollback]"
    by simp_all
next
  assume rej: "F (oplog w @ accepted ([Begin, Prepare tableName headers] @ map StmtExec recs))
           (StmtExec r) = Some e"
  let ?rd = "map Record recs @ Record r # rest"
  from copyInsert_row_rejected [OF acc rej, of rest]
  obtain w' where "copyInsert F ?rd tableName headers w
        = (Inl (CopyLineError (length recs + 1) e), w')"
    "map fst (new_entries w w')
       = [Begin, Prepare tableName headers] @ map StmtExec recs @ [StmtExec r, Rollback]"
    by auto
  then show "fst (copyInsert F ?rd tableName headers w) = Inl (CopyLineError (length recs + 1) e)"
    and "map fst (new_entries w (snd (copyInsert F ?rd tableName headers w)))
       = [Begin, Prepare tableName headers] @ map StmtExec recs @ [StmtExec r, Rollback]"
    by simp_all
qed

lemma accepts_accept_all: "accepts accept_all h ops"
  by (induction ops arbitrary: h) (simp_all add: accept_all_def)

lemma accepts_reject_op: "x \<notin> set ops \<Longrightarrow> accepts (reject_op x) h ops"
  by (induction ops arbitrary: h) (auto simp: reject_op_def)

text \<open>
  Witness: a read error at record 2 of a destination that accepts everything, and a
  destination that rejects record 2 of three.
\<close>

theorem row_error_context_witness:
  "fst (copyInsert accept_all
          (map Record [[''Ada'', ''36'']] @ ReadErr ''unexpected end'' # [Record [''Alan'', ''41'']])
          ''people'' [''name'', ''age''] people_world)
     = Inl (ReadLineError 2 ''unexpected end'')
   \<and> fst (copyInsert (reject_op (StmtExec [''Alan'', ''41'']))
          (map Record [[''Ada'', ''36'']] @ Record [''Alan'', ''41''] # [Record [''Grace'', ''45'']])
          ''people'' [''name'', ''age''] people_world)
     = Inl (CopyLineError 2 ''rejected'')
   \<and> map fst (new_entries people_world
        (snd (copyInsert (reject_op (StmtExec [''Alan'', ''41'']))
          (map Record [[''Ada'', ''36'']] @ Record [''Alan'', ''41''] # [Record [''Grace'', ''45'']])
          ''people'' [''name'', ''age''] people_world)))
     = [Begin, Prepare ''people'' [''name'', ''age''], StmtExec [''Ada'', ''36''],
        StmtExec [''Alan'', ''41''], Rollback]"
proof -
  have a1: "accepts accept_all (oplog people_world)
      ([Begin, Prepare ''people'' [''name'', ''age'']] @ map StmtExec [[''Ada'', ''36'']])"
    by (simp add: accept_all_def)
  have a2: "accepts (reject_op (StmtExec [''Alan'', ''41''])) (oplog people_world)
      ([Begin, Prepare ''people'' [''name'', ''age'']] @ map StmtExec [[''Ada'', ''36'']])"
    by (simp add: reject_op_def)
  have m: "''unexpected end'' \<noteq> ''EOF''" by simp
  have rej: "reject_op (StmtExec [''Alan'', ''41''])
      (oplog people_world @ accepted
         ([Begin, Prepare ''people'' [''name'', ''age'']] @ map StmtExec [[''Ada'', ''36'']]))
      (StmtExec [''Alan'', ''41'']) = Some ''rejected''"
    by (simp add: reject_op_def)
  from row_error_context [OF a1, where msg = "''unexpected end''"
        and rest = "[Record [''Alan'', ''41'']]"] m
    row_error_context [OF a2, where r = "[''Alan'', ''41'']" and e = "''rejected''"
        and rest = "[Record [''Grace'', ''45'']]"] rej
  show ?thesis by simp
qed

lemma copyInsert_EOF_message:
  "copyInsert F (map Record recs @ ReadErr ''EOF'' # rest) t hs w
     = copyInsert F (map Record recs) t hs w"
  by (simp add: copyInsert_def copyInsert_tx_def copy_loop_EOF_message
      cong del: option.case_cong_weak prod.case_cong_weak)

text \<open>
  C10. End of stream is detected by the message of the read error (line 99). A read
  error whose message is \<open>"EOF"\<close>, anywhere in the source, gives the very run that the
  end of the input at that place gives; when the destination accepts the operations,
  the load succeeds with the count of the records read so far, which are committed.
  A read error with any other message makes copyInsert return an error, with the
  relations unchanged.
\<close>

theorem eof_by_message:
  "copyInsert F (map Record recs @ ReadErr ''EOF'' # rest) tableName headers w
     = copyInsert F (map Record recs) tableName headers w
   \<and> (accepts F (oplog w)
         ([Begin, Prepare tableName headers] @ map StmtExec recs
          @ [StmtExec [], StmtClose, Commit]) \<longrightarrow>
        fst (copyInsert F (map Record recs @ ReadErr ''EOF'' # rest) tableName headers w)
          = Inr (length recs)
        \<and> new_entries w
             (snd (copyInsert F (map Record recs @ ReadErr ''EOF'' # rest) tableName headers w))
          = accepted ([Begin, Prepare tableName headers] @ map StmtExec recs
                      @ [StmtExec [], StmtClose, Commit])
        \<and> relations
             (snd (copyInsert F (map Record recs @ ReadErr ''EOF'' # rest) tableName headers w))
          = (case relations w tableName of
               None \<Rightarrow> relations w
             | Some r \<Rightarrow> (relations w)(tableName \<mapsto>
                 r\<lparr>rows := rows r @ filter (\<lambda>r. r \<noteq> []) recs\<rparr>)))
   \<and> (msg \<noteq> ''EOF''
        \<and> accepts F (oplog w) ([Begin, Prepare tableName headers] @ map StmtExec recs) \<longrightarrow>
        fst (copyInsert F (map Record recs @ ReadErr msg # rest) tableName headers w)
          = Inl (ReadLineError (length recs + 1) msg)
        \<and> relations
             (snd (copyInsert F (map Record recs @ ReadErr msg # rest) tableName headers w))
          = relations w)"
proof (intro conjI impI)
  show "copyInsert F (map Record recs @ ReadErr ''EOF'' # rest) tableName headers w
     = copyInsert F (map Record recs) tableName headers w"
    by (rule copyInsert_EOF_message)
next
  let ?rd = "map Record recs @ ReadErr ''EOF'' # rest"
  let ?run = "copyInsert F ?rd tableName headers w"
  assume acc: "accepts F (oplog w)
         ([Begin, Prepare tableName headers] @ map StmtExec recs
          @ [StmtExec [], StmtClose, Commit])"
  have l: "leading ?rd = recs" and s: "stop_msg ?rd = ''EOF''"
    by (simp_all add: leading_append stop_msg_append)
  from copyInsert_succeeds [of F w tableName headers ?rd, unfolded l s, OF acc refl]
  obtain w' where run: "?run = (Inr (length recs), w')"
    by (elim exE)
  note S = copyInsert_Inr [OF run, unfolded l s]
  from run show "fst ?run = Inr (length recs)" by simp
  have "oplog w' = oplog w @ accepted ([Begin, Prepare tableName headers] @ map StmtExec recs
                  @ [StmtExec [], StmtClose, Commit])"
    using S by (elim conjE)
  then show "new_entries w (snd ?run)
      = accepted ([Begin, Prepare tableName headers] @ map StmtExec recs
                  @ [StmtExec [], StmtClose, Commit])"
    by (simp add: run new_entries_def)
  have "relations w'
      = (case relations w tableName of
           None \<Rightarrow> relations w
         | Some r \<Rightarrow> (relations w)(tableName \<mapsto>
             r\<lparr>rows := rows r @ filter (\<lambda>r. r \<noteq> []) recs\<rparr>))"
    using S by (elim conjE)
  then show "relations (snd ?run)
      = (case relations w tableName of
           None \<Rightarrow> relations w
         | Some r \<Rightarrow> (relations w)(tableName \<mapsto>
             r\<lparr>rows := rows r @ filter (\<lambda>r. r \<noteq> []) recs\<rparr>))"
    by (simp add: run)
next
  let ?rd = "map Record recs @ ReadErr msg # rest"
  let ?run = "copyInsert F ?rd tableName headers w"
  assume "msg \<noteq> ''EOF''
        \<and> accepts F (oplog w) ([Begin, Prepare tableName headers] @ map StmtExec recs)"
  then have msg: "msg \<noteq> ''EOF''"
    and acc: "accepts F (oplog w) ([Begin, Prepare tableName headers] @ map StmtExec recs)"
    by simp_all
  have l: "leading ?rd = recs" and s: "stop_msg ?rd = msg"
    by (simp_all add: leading_append stop_msg_append)
  have stop: "stop_msg ?rd \<noteq> ''EOF''" unfolding s by (rule msg)
  from copyInsert_read_error [of F w tableName headers ?rd, unfolded l, OF acc stop, unfolded s]
  obtain w' where run: "?run = (Inl (ReadLineError (length recs + 1) msg), w')"
    by (elim exE conjE)
  from run show "fst ?run = Inl (ReadLineError (length recs + 1) msg)" by simp
  from copyInsert_Inl [OF run] have "relations w' = relations w" by (elim conjE)
  then show "relations (snd ?run) = relations w" by (simp add: run)
qed

text \<open>
  C9. The old entry point ProcessCSV does what ProcessCSVOptimized does: for every
  environment, path, relation name and state of the destination, the same result and
  the same final state (the operations issued and the lines printed are part of it).
\<close>

theorem ProcessCSV_is_ProcessCSVOptimized:
  "ProcessCSV E csvPath tableName w = ProcessCSVOptimized E csvPath tableName w"
  by (simp add: ProcessCSV_def)

text \<open>
  Witness: one record, then a read error, then one more record. With the message
  \<open>"EOF"\<close> one row is committed and the count is 1; with \<open>"EOG"\<close> the load fails at
  line 2 and the relation keeps zero rows.
\<close>

theorem eof_by_message_witness:
  "fst (copyInsert accept_all
          (map Record [[''Ada'', ''36'']] @ ReadErr ''EOF'' # [Record [''Alan'', ''41'']])
          ''people'' [''name'', ''age''] people_world) = Inr 1
   \<and> relations (snd (copyInsert accept_all
          (map Record [[''Ada'', ''36'']] @ ReadErr ''EOF'' # [Record [''Alan'', ''41'']])
          ''people'' [''name'', ''age''] people_world)) ''people''
       = Some \<lparr>columns = [''name TEXT'', ''age TEXT''], rows = [[''Ada'', ''36'']]\<rparr>
   \<and> fst (copyInsert accept_all
          (map Record [[''Ada'', ''36'']] @ ReadErr ''EOG'' # [Record [''Alan'', ''41'']])
          ''people'' [''name'', ''age''] people_world) = Inl (ReadLineError 2 ''EOG'')
   \<and> relations (snd (copyInsert accept_all
          (map Record [[''Ada'', ''36'']] @ ReadErr ''EOG'' # [Record [''Alan'', ''41'']])
          ''people'' [''name'', ''age''] people_world)) ''people''
       = Some \<lparr>columns = [''name TEXT'', ''age TEXT''], rows = []\<rparr>"
proof -
  have a1: "accepts accept_all (oplog people_world)
      ([Begin, Prepare ''people'' [''name'', ''age'']] @ map StmtExec [[''Ada'', ''36'']]
       @ [StmtExec [], StmtClose, Commit])"
    by (rule accepts_accept_all)
  have a2: "accepts accept_all (oplog people_world)
      ([Begin, Prepare ''people'' [''name'', ''age'']] @ map StmtExec [[''Ada'', ''36'']])"
    by (rule accepts_accept_all)
  have m: "''EOG'' \<noteq> ''EOF''" by simp
  note T = eof_by_message [of accept_all "[[''Ada'', ''36'']]" "[Record [''Alan'', ''41'']]"
      "''people''" "[''name'', ''age'']" people_world "''EOG''", THEN conjunct2]
  let ?eof = "copyInsert accept_all
          (map Record [[''Ada'', ''36'']] @ ReadErr ''EOF'' # [Record [''Alan'', ''41'']])
          ''people'' [''name'', ''age''] people_world"
  let ?eog = "copyInsert accept_all
          (map Record [[''Ada'', ''36'']] @ ReadErr ''EOG'' # [Record [''Alan'', ''41'']])
          ''people'' [''name'', ''age''] people_world"
  note E1 = T [THEN conjunct1, THEN mp, OF a1]
  note E2 = T [THEN conjunct2, THEN mp, OF conjI [OF m a2]]
  have 1: "fst ?eof = Inr (length [[''Ada'', ''36'']])"
    by (rule E1 [THEN conjunct1])
  have 2: "relations (snd ?eof)
      = (case relations people_world ''people'' of
           None \<Rightarrow> relations people_world
         | Some r \<Rightarrow> (relations people_world)(''people'' \<mapsto>
             r\<lparr>rows := rows r @ filter (\<lambda>r. r \<noteq> []) [[''Ada'', ''36'']]\<rparr>))"
    by (rule E1 [THEN conjunct2, THEN conjunct2])
  have 3: "fst ?eog = Inl (ReadLineError (length [[''Ada'', ''36'']] + 1) ''EOG'')"
    by (rule E2 [THEN conjunct1])
  have 4: "relations (snd ?eog) = relations people_world"
    by (rule E2 [THEN conjunct2])
  have 5: "relations people_world ''people''
      = Some \<lparr>columns = [''name TEXT'', ''age TEXT''], rows = []\<rparr>"
    by (simp add: people_world_def)
  have 6: "relations (snd ?eof) ''people''
      = Some \<lparr>columns = [''name TEXT'', ''age TEXT''], rows = [[''Ada'', ''36'']]\<rparr>"
    unfolding 2 5 by simp
  have 7: "relations (snd ?eog) ''people''
      = Some \<lparr>columns = [''name TEXT'', ''age TEXT''], rows = []\<rparr>"
    unfolding 4 5 by (rule refl)
  have 8: "fst ?eof = Inr 1"
    using 1 by simp
  have 9: "fst ?eog = Inl (ReadLineError 2 ''EOG'')"
    using 3 by simp
  from 8 6 9 7 show ?thesis
    by (intro conjI)
qed

section \<open>The derived schema\<close>

lemma derive_schema_maps:
  "derive_schema U headers =
     (map (normalize U) headers, map (\<lambda>h. normalize U h @ '' TEXT'') headers)"
  by (induction headers) simp_all

lemma normalize_bytes:
  "normalize U h =
     ToLower U (map (\<lambda>c. if c = CHR '' '' \<or> c = CHR ''-'' then CHR ''_'' else c) h)"
  by (simp add: normalize_def ReplaceAll_twice)

lemma distinct_suffix:
  "distinct (map (\<lambda>n. n @ s) ns) = distinct ns"
  by (simp add: distinct_map inj_on_def)

text \<open>
  C2. Schema derivation. For every header row the loop of lines 45-53 yields one column
  definition per header field, in the same order; the i-th one is the normalized i-th
  field followed by \<open>" TEXT"\<close>, the unconstrained text type. The normalized field is
  the field with every space and every hyphen replaced by an underscore, lowered by
  strings.ToLower; for a field of ASCII bytes, lowering first and replacing afterwards
  gives the same name. Nothing detects collisions: the column definitions are distinct
  exactly when the normalized names are, and the fields \<open>"First Name"\<close> and
  \<open>"first-name"\<close> give the same column twice.
\<close>

theorem derive_schema_columns:
  "derive_schema U headers =
     (map (normalize U) headers, map (\<lambda>h. normalize U h @ '' TEXT'') headers)
   \<and> length (snd (derive_schema U headers)) = length headers
   \<and> (\<forall>i < length headers.
          snd (derive_schema U headers) ! i = normalize U (headers ! i) @ '' TEXT'')
   \<and> (\<forall>h. normalize U h =
          ToLower U (map (\<lambda>c. if c = CHR '' '' \<or> c = CHR ''-'' then CHR ''_'' else c) h))
   \<and> (\<forall>h. isASCII h \<longrightarrow>
          normalize U h =
            map (\<lambda>c. if c = CHR '' '' \<or> c = CHR ''-'' then CHR ''_'' else c) (ToLower U h))
   \<and> distinct (snd (derive_schema U headers)) = distinct (map (normalize U) headers)
   \<and> snd (derive_schema U [''First Name'', ''first-name''])
       = [''first_name TEXT'', ''first_name TEXT'']"
proof (intro conjI allI impI)
  show "derive_schema U headers =
     (map (normalize U) headers, map (\<lambda>h. normalize U h @ '' TEXT'') headers)"
    by (rule derive_schema_maps)
  show "length (snd (derive_schema U headers)) = length headers"
    by (simp add: derive_schema_maps)
  show "snd (derive_schema U headers) ! i = normalize U (headers ! i) @ '' TEXT''"
    if "i < length headers" for i
    using that by (simp add: derive_schema_maps)
  show "normalize U h =
          ToLower U (map (\<lambda>c. if c = CHR '' '' \<or> c = CHR ''-'' then CHR ''_'' else c) h)" for h
    by (rule normalize_bytes)
  show "normalize U h =
            map (\<lambda>c. if c = CHR '' '' \<or> c = CHR ''-'' then CHR ''_'' else c) (ToLower U h)"
    if "isASCII h" for h
  proof -
    let ?u = "\<lambda>c. if c = CHR '' '' \<or> c = CHR ''-'' then CHR ''_'' else c"
    have a: "isASCII (map ?u h)"
      using that by (induction h) (simp_all add: isASCII_def)
    have b: "lowerByte (?u c) = ?u (lowerByte c)" for c
      by (simp add: lowerByte_space lowerByte_hyphen) (simp add: lowerByte_def isUpperByte_def)
    have c: "hasUpper (map ?u h) = hasUpper h"
      by (induction h) (simp_all add: hasUpper_def, simp_all add: isUpperByte_def)
    show ?thesis
      using that a by (simp add: normalize_bytes ToLower_def b c comp_def)
  qed
  show "distinct (snd (derive_schema U headers)) = distinct (map (normalize U) headers)"
    using distinct_suffix [of "'' TEXT''" "map (normalize U) headers"]
    by (simp add: derive_schema_maps comp_def)
  show "snd (derive_schema U [''First Name'', ''first-name''])
       = [''first_name TEXT'', ''first_name TEXT'']"
    by (simp add: normalize_def ToLower_def isASCII_def hasUpper_def lowerByte_def
        isUpperByte_def char_of_eq_iff)
qed

text \<open>
  Witness: the second column of the header \<open>Name,Last-Name\<close>, and the two orders of
  lowering and replacing on \<open>"Last-Name"\<close>.
\<close>

theorem derive_schema_columns_witness:
  "snd (derive_schema (map lowerByte) [''Name'', ''Last-Name'']) ! 1 = ''last_name TEXT''
   \<and> isASCII ''Last-Name''
   \<and> normalize (map lowerByte) ''Last-Name''
       = map (\<lambda>c. if c = CHR '' '' \<or> c = CHR ''-'' then CHR ''_'' else c) ''last-name''"
proof -
  note T = derive_schema_columns [of "map lowerByte" "[''Name'', ''Last-Name'']"]
  have i: "(1::nat) < length [''Name'', ''Last-Name'']" by simp
  have a: "isASCII ''Last-Name''" by (simp add: isASCII_def)
  have l: "ToLower (map lowerByte) ''Last-Name'' = ''last-name''"
    by (simp add: ToLower_def isASCII_def hasUpper_def lowerByte_def isUpperByte_def
        char_of_eq_iff)
  have n: "normalize (map lowerByte) ''Last-Name'' = ''last_name''"
    by (simp add: normalize_def ToLower_def isASCII_def hasUpper_def lowerByte_def
        isUpperByte_def char_of_eq_iff)
  from T i have "snd (derive_schema (map lowerByte) [''Name'', ''Last-Name'']) ! 1
      = normalize (map lowerByte) ([''Name'', ''Last-Name''] ! 1) @ '' TEXT''"
    by blast
  then have 1: "snd (derive_schema (map lowerByte) [''Name'', ''Last-Name'']) ! 1 = ''last_name TEXT''"
    by (simp add: n)
  from T a have "normalize (map lowerByte) ''Last-Name''
       = map (\<lambda>c. if c = CHR '' '' \<or> c = CHR ''-'' then CHR ''_'' else c)
           (ToLower (map lowerByte) ''Last-Name'')"
    by blast
  then have 2: "normalize (map lowerByte) ''Last-Name''
       = map (\<lambda>c. if c = CHR '' '' \<or> c = CHR ''-'' then CHR ''_'' else c) ''last-name''"
    by (simp only: l)
  from 1 a 2 show ?thesis by (intro conjI)
qed

end
